theory Spec2Isabelle
  imports Main "HOL-Library.AList"
begin

section \<open>JavaScript values, objects and errors\<close>

text \<open>
  The values that reach \<^verbatim>\<open>lib/index.js\<close>: \<^verbatim>\<open>null\<close>, booleans, numbers
  (integers only, printed in decimal), strings, Buffers (their bytes, read as text) and
  plain objects. \<^verbatim>\<open>undefined\<close> is the absence of a value: a property read is a
  \<open>jsval option\<close>, and a property holding \<^verbatim>\<open>undefined\<close> is an absent property.
  An object is the list of its own properties in enumeration order.
\<close>

datatype jsval =
    JNull
  | JBool bool
  | JNum int
  | JStr string
  | JBuffer string
  | JObj "(string \<times> jsval) list"

type_synonym obj = "(string \<times> jsval) list"

text \<open>A thrown or reported error: its class and its \<^verbatim>\<open>message\<close>.\<close>

datatype error = TypeError string | Error string

fun error_toString :: "error \<Rightarrow> string" where
  "error_toString (TypeError m) = (if m = [] then ''TypeError'' else ''TypeError: '' @ m)"
| "error_toString (Error m) = (if m = [] then ''Error'' else ''Error: '' @ m)"

fun set_message :: "string \<Rightarrow> error \<Rightarrow> error" where
  "set_message m (TypeError _) = TypeError m"
| "set_message m (Error _) = Error m"

text \<open>Truthiness, as \<^verbatim>\<open>!x\<close>, \<^verbatim>\<open>x || y\<close> and \<^verbatim>\<open>if (x)\<close> read it.\<close>

fun truthy :: "jsval option \<Rightarrow> bool" where
  "truthy None = False"
| "truthy (Some JNull) = False"
| "truthy (Some (JBool b)) = b"
| "truthy (Some (JNum n)) = (n \<noteq> 0)"
| "truthy (Some (JStr s)) = (s \<noteq> [])"
| "truthy (Some (JBuffer _)) = True"
| "truthy (Some (JObj _)) = True"

definition or_js :: "jsval option \<Rightarrow> jsval option \<Rightarrow> jsval option" where
  "or_js x y = (if truthy x then x else y)"

text \<open>Decimal digits of a natural number, for the string conversion of numbers.\<close>

fun digit_char :: "nat \<Rightarrow> char" where
  "digit_char n = char_of (48 + n)"

function digits :: "nat \<Rightarrow> string" where
  "digits n = (if n < 10 then [digit_char n] else digits (n div 10) @ [digit_char (n mod 10)])"
  by pat_completeness auto
termination
  by (relation "measure (\<lambda>n. n)") auto

declare digits.simps [simp del]

text \<open>
  String conversion, as string concatenation (\<^verbatim>\<open>'...' + x\<close>), property keys
  (\<^verbatim>\<open>o[x]\<close>) and \<^verbatim>\<open>x.toString()\<close> apply it.
\<close>

fun js_to_string :: "jsval option \<Rightarrow> string" where
  "js_to_string None = ''undefined''"
| "js_to_string (Some JNull) = ''null''"
| "js_to_string (Some (JBool b)) = (if b then ''true'' else ''false'')"
| "js_to_string (Some (JNum n)) = (if n < 0 then ''-'' @ digits (nat (- n)) else digits (nat n))"
| "js_to_string (Some (JStr s)) = s"
| "js_to_string (Some (JBuffer b)) = b"
| "js_to_string (Some (JObj _)) = ''[object Object]''"

text \<open>\<^verbatim>\<open>s.split(c)\<close> for a one-character separator: never the empty list.\<close>

fun js_split :: "char \<Rightarrow> string \<Rightarrow> string list" where
  "js_split c [] = [] # []"
| "js_split c (x # xs) =
     (if x = c then [] # js_split c xs
      else (case js_split c xs of
              [] \<Rightarrow> [x] # []
            | s # ss \<Rightarrow> (x # s) # ss))"

text \<open>\<^verbatim>\<open>a.pop()\<close> on the non-empty array that \<^verbatim>\<open>split\<close> returns.\<close>

definition pop :: "string list \<Rightarrow> string" where
  "pop segs = (case rev segs of [] \<Rightarrow> [] | s # _ \<Rightarrow> s)"

text \<open>\<^verbatim>\<open>/\./.test(s)\<close>: the string has a dot.\<close>

definition test_dot :: "string \<Rightarrow> bool" where
  "test_dot s = (CHR ''.'' \<in> set s)"

text \<open>
  The names every plain object inherits from \<^verbatim>\<open>Object.prototype\<close>. A read
  \<^verbatim>\<open>o[name]\<close> of such a name on an object without an own property of that name yields
  the inherited member, a function or (for \<^verbatim>\<open>__proto__\<close>) the prototype itself: a
  truthy value.
\<close>

definition object_prototype :: "string list" where
  "object_prototype =
     [''constructor'', ''hasOwnProperty'', ''isPrototypeOf'', ''propertyIsEnumerable'',
      ''toLocaleString'', ''toString'', ''valueOf'', ''__defineGetter__'', ''__defineSetter__'',
      ''__lookupGetter__'', ''__lookupSetter__'', ''__proto__'']"

text \<open>
  \<^verbatim>\<open>!o[name]\<close> on an object created as \<^verbatim>\<open>{}\<close> whose own properties hold strings:
  the own property decides where there is one, an inherited member otherwise.
\<close>

definition has_truthy :: "(string \<times> string) list \<Rightarrow> string \<Rightarrow> bool" where
  "has_truthy ob name =
     (case map_of ob name of
        Some v \<Rightarrow> truthy (Some (JStr v))
      | None \<Rightarrow> name \<in> set object_prototype)"

text \<open>
  \<^verbatim>\<open>o[name] = v\<close> on an object created as \<^verbatim>\<open>{}\<close>: the own property is added, or
  replaced in its place. The name \<^verbatim>\<open>__proto__\<close> is an accessor of the prototype; its
  setter takes the value for the new prototype, or ignores it when it is no object, and no
  own property comes of the assignment.
\<close>

definition assign :: "(string \<times> 'a) list \<Rightarrow> string \<Rightarrow> 'a \<Rightarrow> (string \<times> 'a) list" where
  "assign ob name v = (if name = ''__proto__'' then ob else AList.update name v ob)"

section \<open>Options and plugin set-up\<close>

text \<open>The option names the plugin recognises; every other option is a template parameter.\<close>

definition settings :: "string list" where
  "settings = [''default'', ''directory'', ''engine'', ''partials'', ''partialExtension'',
     ''layoutExtension'', ''pattern'', ''rename'', ''exposeConsolidate'', ''layoutKey'']"

text \<open>\<^verbatim>\<open>omit(o, names)\<close> of lodash: the object without the named properties.\<close>

definition omit :: "obj \<Rightarrow> string list \<Rightarrow> obj" where
  "omit opts names = filter (\<lambda>(k, v). k \<notin> set names) opts"

text \<open>The local variables of \<^verbatim>\<open>plugin\<close> that the returned function closes over.\<close>

record config =
  def :: "jsval option"
  dir :: "jsval option"
  engine :: "jsval option"
  partialExtension :: "jsval option"
  layoutExtension :: "jsval option"
  partials :: "jsval option"
  pattern :: "jsval option"
  rename :: "jsval option"
  layoutKey :: "jsval option"
  params :: obj

text \<open>
  What the plugin is given from outside this file: the engines of \<^verbatim>\<open>consolidate\<close>
  (an engine name to its renderer, a function of the template path and
  the render context that answers with an error or the rendered text), the helpers
  \<^verbatim>\<open>check\<close> and \<^verbatim>\<open>readPartials\<close>, and the Metalsmith instance (its metadata and its
  \<^verbatim>\<open>path\<close> method). The check helper is handed the collection and a key and reads the
  file under that key; here it is handed the key and that file.
\<close>

type_synonym renderer = "string \<Rightarrow> obj \<Rightarrow> error + string"

record env =
  consolidate :: "string \<Rightarrow> renderer option"
  check :: "string \<Rightarrow> obj \<Rightarrow> jsval option \<Rightarrow> jsval option \<Rightarrow> jsval option \<Rightarrow> bool"
  readPartials :: "jsval option \<Rightarrow> jsval option \<Rightarrow> jsval option \<Rightarrow> error + jsval"
  metadata :: obj
  path :: "jsval option \<Rightarrow> string \<Rightarrow> string"

text \<open>
  \<^verbatim>\<open>consolidate[name]\<close> is a property read on the module object. Besides the engines it
  finds what else the module exports, \<^verbatim>\<open>requires\<close> (an object; line 76 reads it) and
  \<^verbatim>\<open>clearCache\<close>, and the members inherited from \<^verbatim>\<open>Object.prototype\<close>. Each of
  them is truthy. Called as \<^verbatim>\<open>render(str, clone, callback)\<close>, some return without ever
  calling the callback (\<open>Quiet\<close>); the others are no functions, or built-in methods that
  reject the receiver \<^verbatim>\<open>undefined\<close> of such a call, and the call throws a TypeError
  (\<open>Throwing\<close>).
\<close>

datatype member = Engine renderer | Quiet | Throwing

definition consolidate_get :: "env \<Rightarrow> string \<Rightarrow> member option" where
  "consolidate_get e name =
     (case consolidate e name of
        Some render \<Rightarrow> Some (Engine render)
      | None \<Rightarrow>
          if name \<in> set [''clearCache'', ''constructor'', ''isPrototypeOf'', ''toString'']
          then Some Quiet
          else if name = ''requires'' \<or> name \<in> set object_prototype then Some Throwing
          else None)"

text \<open>
  The own properties of the options argument after \<^verbatim>\<open>opts = opts || {}\<close> and the
  string shorthand. A truthy argument that is neither a string nor an object has none of
  the properties read below.
\<close>

definition normalise_opts :: "jsval option \<Rightarrow> obj" where
  "normalise_opts arg =
     (case or_js arg (Some (JObj [])) of
        Some (JStr s) \<Rightarrow> [(''engine'', JStr s)]
      | Some (JObj ps) \<Rightarrow> ps
      | _ \<Rightarrow> [])"

text \<open>
  \<^verbatim>\<open>plugin\<close> up to the \<^verbatim>\<open>return\<close> of the function it builds: an error thrown, or the
  local variables that function closes over. The function is \<open>run\<close> below. The call of
  \<^verbatim>\<open>opts.exposeConsolidate\<close>, which hands \<^verbatim>\<open>consolidate.requires\<close> to the caller and
  takes no part in what follows, is left out.
\<close>

definition plugin :: "env \<Rightarrow> jsval option \<Rightarrow> error + config" where
  \<open>plugin e arg =
     (let opts = normalise_opts arg in
      if \<not> truthy (map_of opts ''engine'') then
        Inl (Error ''"engine" option required'')
      else if consolidate_get e (js_to_string (map_of opts ''engine'')) = None then
        Inl (Error (''Unknown template engine: "'' @ js_to_string (map_of opts ''engine'') @ ''"''))
      else
        Inr \<lparr> def = map_of opts ''default'',
              dir = or_js (map_of opts ''directory'') (Some (JStr ''layouts'')),
              engine = map_of opts ''engine'',
              partialExtension = map_of opts ''partialExtension'',
              layoutExtension = or_js (map_of opts ''layoutExtension'') (Some (JStr '''')),
              partials = map_of opts ''partials'',
              pattern = map_of opts ''pattern'',
              rename = map_of opts ''rename'',
              layoutKey = or_js (map_of opts ''layoutKey'') (Some (JStr ''layout'')),
              params = omit opts settings \<rparr>)\<close>

section \<open>Layout path\<close>

text \<open>
  \<^verbatim>\<open>getLayoutPath\<close>: the default stands in for a falsy layout; \<^verbatim>\<open>split\<close> exists on
  strings only, so any other value ends in a TypeError.
\<close>

definition getLayoutPath :: "config \<Rightarrow> jsval option \<Rightarrow> error + string" where
  "getLayoutPath cfg layout =
     (case or_js layout (def cfg) of
        Some (JStr l) \<Rightarrow>
          Inr (if \<not> test_dot (pop (js_split CHR ''/'' l))
               then l @ ''.'' @ js_to_string (layoutExtension cfg)
               else l)
      | None \<Rightarrow> Inl (TypeError ''Cannot read property 'split' of undefined'')
      | Some JNull \<Rightarrow> Inl (TypeError ''Cannot read property 'split' of null'')
      | _ \<Rightarrow> Inl (TypeError ''layout.split is not a function''))"

section \<open>Render context\<close>

text \<open>
  \<^verbatim>\<open>extend(target, source)\<close> of node-extend copies the properties of the source into
  the target, a property the target has already keeping its place. With \<^verbatim>\<open>true\<close> as first
  argument a plain object among the values is copied in turn, into the object the target
  holds under that name or else into a new one.
\<close>

definition extend_obj :: "obj \<Rightarrow> obj \<Rightarrow> obj" where
  "extend_obj target source = fold (\<lambda>(name, copy) t. AList.update name copy t) source target"

function extend_deep :: "obj \<Rightarrow> obj \<Rightarrow> obj" where
  "extend_deep target [] = target"
| "extend_deep target ((name, copy) # rest) =
     extend_deep
       (AList.update name
          (case copy of
             JObj c \<Rightarrow>
               JObj (extend_deep (case map_of target name of Some (JObj src) \<Rightarrow> src | _ \<Rightarrow> []) c)
           | _ \<Rightarrow> copy)
          target)
       rest"
  by pat_completeness auto
termination
  by (relation "measure (\<lambda>(target, source). size_list (size_prod (\<lambda>_. 0) size) source)") auto

text \<open>The two \<^verbatim>\<open>extend\<close> calls of \<^verbatim>\<open>convert\<close>.\<close>

definition build_clone :: "obj \<Rightarrow> obj \<Rightarrow> obj \<Rightarrow> obj" where
  "build_clone ps md data =
     (let clonedParams = extend_deep [] ps
      in extend_obj (extend_obj (extend_obj [] clonedParams) md) data)"

section \<open>Paths of the file collection\<close>

text \<open>
  \<^verbatim>\<open>path.parse\<close> and \<^verbatim>\<open>path.join\<close> of Node, in their POSIX form, for the two
  components that \<^verbatim>\<open>convert\<close> reads.
\<close>

definition strip_slashes :: "string \<Rightarrow> string" where
  "strip_slashes p = rev (dropWhile (\<lambda>c. c = CHR ''/'') (rev p))"

definition parse_base :: "string \<Rightarrow> string" where
  "parse_base p = rev (takeWhile (\<lambda>c. c \<noteq> CHR ''/'') (rev (strip_slashes p)))"

definition parse_dir :: "string \<Rightarrow> string" where
  "parse_dir p =
     (let prefix = rev (dropWhile (\<lambda>c. c \<noteq> CHR ''/'') (rev (strip_slashes p)))
      in if prefix = [] then (if p \<noteq> [] \<and> hd p = CHR ''/'' then ''/'' else [])
         else if length prefix = 1 then ''/''
         else butlast prefix)"

text \<open>
  The name is the base without its extension, the last dot and what follows it. A base
  without a dot, or with its only dot in front, has no extension, and neither has the base
  \<^verbatim>\<open>..\<close>, which \<^verbatim>\<open>path.parse\<close> recognises by the place of its second dot counted from
  the start of the base. For a path that is the root and a base, \<^verbatim>\<open>/..\<close>, it counts
  from the slash: there the base \<^verbatim>\<open>..\<close> has the name \<^verbatim>\<open>.\<close>.
\<close>

definition at_root :: "string \<Rightarrow> bool" where
  "at_root p \<longleftrightarrow> p \<noteq> [] \<and> hd p = CHR ''/'' \<and> CHR ''/'' \<notin> set (strip_slashes (tl p))"

definition parse_name :: "string \<Rightarrow> string" where
  "parse_name p =
     (let base = parse_base p;
          stem = rev (tl (dropWhile (\<lambda>c. c \<noteq> CHR ''.'') (rev base)))
      in if CHR ''.'' \<notin> set base \<or> stem = [] \<or> (base = ''..'' \<and> \<not> at_root p) then base else stem)"

definition join_segments :: "string list \<Rightarrow> string" where
  "join_segments segs = (case segs of [] \<Rightarrow> [] | s # ss \<Rightarrow> s @ concat (map (\<lambda>x. CHR ''/'' # x) ss))"

fun normalize_step :: "bool \<Rightarrow> string list \<Rightarrow> string \<Rightarrow> string list" where
  "normalize_step allow stack seg =
     (if seg = [] \<or> seg = ''.'' then stack
      else if seg = ''..'' then
        (case stack of
           [] \<Rightarrow> (if allow then [''..''] else [])
         | seg1 # segs \<Rightarrow>
             (if seg1 = ''..'' then (if allow then ''..'' # stack else stack) else segs))
      else seg # stack)"

definition normalize :: "string \<Rightarrow> string" where
  "normalize p =
     (if p = [] then ''.''
      else
        (let absolute = (hd p = CHR ''/'');
             trailing = (last p = CHR ''/'');
             body = join_segments (rev (foldl (normalize_step (\<not> absolute)) [] (js_split CHR ''/'' p)))
         in if body = [] then (if absolute then ''/'' else if trailing then ''./'' else ''.'')
            else (if absolute then ''/'' else []) @ body @ (if trailing then ''/'' else [])))"

definition path_join :: "string \<Rightarrow> string \<Rightarrow> string" where
  "path_join a b =
     normalize (if a = [] then b else if b = [] then a else a @ ''/'' @ b)"

text \<open>The new key of a renamed file.\<close>

definition renamed :: "string \<Rightarrow> string" where
  "renamed file = path_join (parse_dir file) (parse_name file @ ''.html'')"

section \<open>Selection\<close>

text \<open>
  A file object is known by the key under which it entered the run: the collection
  \<open>files\<close> maps each key to such a reference and the \<open>heap\<close> maps a reference to
  the object's properties. Each key of the incoming collection holds an object of its own.
\<close>

type_synonym ref = string
type_synonym heap = "ref \<Rightarrow> obj"

definition heap_of :: "(string \<times> obj) list \<Rightarrow> heap" where
  "heap_of input = (\<lambda>r. case map_of input r of None \<Rightarrow> [] | Some data \<Rightarrow> data)"

definition files_of :: "(string \<times> obj) list \<Rightarrow> (string \<times> ref) list" where
  "files_of input = map (\<lambda>(file, data). (file, file)) input"

text \<open>\<^verbatim>\<open>data.contents = data.contents.toString()\<close>\<close>

definition stringify :: "obj \<Rightarrow> error + obj" where
  "stringify data =
     (case map_of data ''contents'' of
        None \<Rightarrow> Inl (TypeError ''Cannot read property 'toString' of undefined'')
      | Some JNull \<Rightarrow> Inl (TypeError ''Cannot read property 'toString' of null'')
      | Some v \<Rightarrow> Inr (AList.update ''contents'' (JStr (js_to_string (Some v))) data))"

record selection =
  sel_heap :: heap
  templates :: "(string \<times> string) list"
  matches :: "(string \<times> ref) list"
  sel_thrown :: "error option"

text \<open>The body of the \<^verbatim>\<open>forEach\<close> over \<^verbatim>\<open>Object.keys(files)\<close>.\<close>

definition select_file :: "env \<Rightarrow> config \<Rightarrow> string \<Rightarrow> selection \<Rightarrow> selection" where
  "select_file e cfg file st =
     (if \<not> check e file (sel_heap st file) (pattern cfg) (def cfg) (layoutKey cfg) then st
      else
        (case stringify (sel_heap st file) of
           Inl err \<Rightarrow> st\<lparr>sel_thrown := Some err\<rparr>
         | Inr data \<Rightarrow>
             (let st1 = st\<lparr>sel_heap := (sel_heap st)(file := data)\<rparr> in
              case getLayoutPath cfg (map_of data (js_to_string (layoutKey cfg))) of
                Inl err \<Rightarrow> st1\<lparr>sel_thrown := Some err\<rparr>
              | Inr lp \<Rightarrow>
                  (let template = path e (dir cfg) lp in
                   if \<not> has_truthy (templates st1) template
                   then st1\<lparr>templates := assign (templates st1) template file\<rparr>
                   else st1\<lparr>matches := assign (matches st1) file file\<rparr>))))"

fun select_files :: "env \<Rightarrow> config \<Rightarrow> string list \<Rightarrow> selection \<Rightarrow> selection" where
  "select_files e cfg [] st = st"
| "select_files e cfg (file # rest) st =
     (let st' = select_file e cfg file st
      in if sel_thrown st' \<noteq> None then st' else select_files e cfg rest st')"

section \<open>Rendering\<close>

text \<open>
  \<^verbatim>\<open>convert\<close> runs in two parts: what it does up to the call of the renderer, and the
  callback the renderer calls with its answer. Between the two the render is in flight:
  a \<open>task\<close> holds what the callback closes over (\<^verbatim>\<open>file\<close>, \<^verbatim>\<open>data\<close>), the key
  \<^verbatim>\<open>convert\<close> was called with, and the arguments the renderer was given.
\<close>

record task =
  t_file :: string
  t_key :: string
  t_data :: ref
  t_str :: string
  t_clone :: obj

datatype phase = Seeds | Followers

text \<open>
  One entry of the trace for every call of \<^verbatim>\<open>convert\<close> and every answer of the
  renderer, with the phase and the key \<^verbatim>\<open>convert\<close> was called with.
\<close>

datatype entry =
    Converting phase string
  | Converted phase string ref
  | Failed phase string ref error

text \<open>
  The run: the collection and the objects, the keys \<^verbatim>\<open>each\<close> has not yet handed to
  \<^verbatim>\<open>convert\<close>, the renders in flight, whether the callback of the current
  \<^verbatim>\<open>each\<close> has been called, what \<^verbatim>\<open>done\<close> was called with (\<open>None\<close> until it
  is), and an exception if one was thrown.
\<close>

record state =
  files :: "(string \<times> ref) list"
  heap :: heap
  pending :: "string list"
  running :: "task list"
  phase :: phase
  called :: bool
  result :: "error option option"
  thrown :: "error option"
  followers :: "string list"
  trace :: "entry list"

text \<open>
  The part of \<^verbatim>\<open>convert\<close> before the renderer answers. The old key is deleted here,
  before the render. What \<^verbatim>\<open>consolidate[engine]\<close> yields is called: an engine, whose
  render is then in flight; a member that never answers, which leaves the render in flight
  for good; or what cannot be called, an exception.
\<close>

definition convert_start :: "env \<Rightarrow> config \<Rightarrow> string \<Rightarrow> state \<Rightarrow> state" where
  "convert_start e cfg file s =
     (let s0 = s\<lparr>trace := trace s @ [Converting (phase s) file]\<rparr> in
      case map_of (files s) file of
        None \<Rightarrow> s0\<lparr>thrown := Some (TypeError ''Cannot read property of undefined'')\<rparr>
      | Some data \<Rightarrow>
          (let clone = build_clone (params cfg) (metadata e) (heap s data) in
           case getLayoutPath cfg (map_of (heap s data) (js_to_string (layoutKey cfg))) of
             Inl err \<Rightarrow> s0\<lparr>thrown := Some err\<rparr>
           | Inr lp \<Rightarrow>
               (let str = path e (dir cfg) lp;
                    s1 = (if truthy (rename cfg) then s0\<lparr>files := AList.delete file (files s)\<rparr> else s0);
                    file' = (if truthy (rename cfg) then renamed file else file);
                    t = \<lparr>t_file = file', t_key = file, t_data = data, t_str = str, t_clone = clone\<rparr>
                in case consolidate_get e (js_to_string (engine cfg)) of
                     None \<Rightarrow> s1\<lparr>thrown := Some (TypeError ''render is not a function'')\<rparr>
                   | Some Throwing \<Rightarrow> s1\<lparr>thrown := Some (TypeError ''render is not a function'')\<rparr>
                   | Some Quiet \<Rightarrow> s1\<lparr>running := running s1 @ [t]\<rparr>
                   | Some (Engine render) \<Rightarrow> s1\<lparr>running := running s1 @ [t]\<rparr>)))"

text \<open>
  The callbacks, innermost last. \<^verbatim>\<open>done\<close> of the plugin function records the result of the
  run; the second \<^verbatim>\<open>each\<close> runs over \<^verbatim>\<open>Object.keys(matches)\<close> and calls \<^verbatim>\<open>done\<close>;
  \<^verbatim>\<open>renderFiles\<close> is the callback of the first \<^verbatim>\<open>each\<close>.
\<close>

definition plugin_done :: "error option \<Rightarrow> state \<Rightarrow> state" where
  "plugin_done err s = s\<lparr>result := Some err\<rparr>"

definition each_matches :: "state \<Rightarrow> state" where
  "each_matches s =
     (let s1 = s\<lparr>phase := Followers, pending := followers s, called := False\<rparr>
      in if followers s = [] then plugin_done None (s1\<lparr>called := True\<rparr>) else s1)"

definition renderFiles :: "error option \<Rightarrow> state \<Rightarrow> state" where
  "renderFiles err s = (case err of Some x \<Rightarrow> plugin_done (Some x) s | None \<Rightarrow> each_matches s)"

text \<open>
  The callback \<^verbatim>\<open>each\<close> hands to \<^verbatim>\<open>convert\<close>: the first error goes to the callback of
  the \<^verbatim>\<open>each\<close> at once, success goes there when every key has been handed out and every
  render has answered, and the callback is called once only. An exception out of
  \<^verbatim>\<open>convert\<close> ends the enumeration of \<^verbatim>\<open>each\<close> before its end, and \<^verbatim>\<open>each\<close>
  reports success only once the enumeration has reached its end: after an exception it
  reports errors only.
\<close>

definition each_callback :: "error option \<Rightarrow> state \<Rightarrow> state" where
  "each_callback err s =
     (let finish = (\<lambda>x s'. case phase s of Seeds \<Rightarrow> renderFiles x s' | Followers \<Rightarrow> plugin_done x s')
      in case err of
           Some x \<Rightarrow> (if called s then s else finish (Some x) (s\<lparr>called := True\<rparr>))
         | None \<Rightarrow>
             (if pending s = [] \<and> running s = [] \<and> thrown s = None \<and> \<not> called s
              then finish None (s\<lparr>called := True\<rparr>) else s))"

text \<open>The callback \<^verbatim>\<open>convert\<close> hands to the renderer, called with the renderer's answer.\<close>

definition convert_callback :: "env \<Rightarrow> config \<Rightarrow> renderer \<Rightarrow> task \<Rightarrow> state \<Rightarrow> state" where
  "convert_callback e cfg render t s =
     (case render (t_str t) (t_clone t) of
        Inl err \<Rightarrow>
          (let err' = set_message
                 (''Error rendering template `'' @
                    js_to_string (map_of (heap s (t_data t)) (js_to_string (layoutKey cfg))) @
                    ''` for file `'' @ t_file t @ ''`. '' @ error_toString err) err
           in each_callback (Some err')
                (s\<lparr>trace := trace s @ [Failed (phase s) (t_key t) (t_data t) err']\<rparr>))
      | Inr out \<Rightarrow>
          each_callback None
            (s\<lparr>heap := (heap s)(t_data t := AList.update ''contents'' (JBuffer out) (heap s (t_data t))),
               files := AList.update (t_file t) (t_data t) (files s),
               trace := trace s @ [Converted (phase s) (t_key t) (t_data t)]\<rparr>))"

text \<open>
  \<^verbatim>\<open>each\<close> of the async library hands every key to \<^verbatim>\<open>convert\<close> without waiting, and
  a renderer may answer before it returns or later, in any order. A schedule says what
  happens next: \<open>Start i\<close>, the i-th key not yet handed out goes to \<^verbatim>\<open>convert\<close>;
  \<open>Answer i\<close>, the i-th render in flight answers, with what the renderer makes of the
  path and the context it was given. A step that cannot happen changes nothing, and after
  an exception no further key is handed out. The schedules cover every order in which the
  keys can be enumerated and the answers can arrive: \<open>Start 0\<close> then \<open>Answer 0\<close>,
  repeated, is a renderer that answers at once; every \<open>Start 0\<close> first is one that
  answers later.
\<close>

datatype event = Start nat | Answer nat

definition step :: "env \<Rightarrow> config \<Rightarrow> event \<Rightarrow> state \<Rightarrow> state" where
  "step e cfg ev s =
     (case ev of
        Start i \<Rightarrow>
          (if i < length (pending s) \<and> thrown s = None
           then convert_start e cfg (pending s ! i)
                  (s\<lparr>pending := take i (pending s) @ drop (Suc i) (pending s)\<rparr>)
           else s)
      | Answer i \<Rightarrow>
          (if i < length (running s)
           then (case consolidate e (js_to_string (engine cfg)) of
                   None \<Rightarrow> s
                 | Some render \<Rightarrow>
                     convert_callback e cfg render (running s ! i)
                       (s\<lparr>running := take i (running s) @ drop (Suc i) (running s)\<rparr>))
           else s))"

fun exec :: "env \<Rightarrow> config \<Rightarrow> event list \<Rightarrow> state \<Rightarrow> state" where
  "exec e cfg [] s = s"
| "exec e cfg (ev # evs) s = exec e cfg evs (step e cfg ev s)"

section \<open>The plugin function\<close>

text \<open>The partials, read when the returned function runs, become a template parameter.\<close>

definition with_partials :: "env \<Rightarrow> config \<Rightarrow> error + config" where
  "with_partials e cfg =
     (if truthy (partials cfg) then
        (case partials cfg of
           Some (JStr p) \<Rightarrow>
             (case readPartials e (partials cfg) (partialExtension cfg) (dir cfg) of
                Inl err \<Rightarrow> Inl err
              | Inr v \<Rightarrow> Inr (cfg\<lparr>params := AList.update ''partials'' v (params cfg)\<rparr>))
         | Some v \<Rightarrow> Inr (cfg\<lparr>params := AList.update ''partials'' v (params cfg)\<rparr>)
         | None \<Rightarrow> Inr cfg)
      else Inr cfg)"

definition select :: "env \<Rightarrow> config \<Rightarrow> (string \<times> obj) list \<Rightarrow> selection" where
  "select e cfg input =
     select_files e cfg (map fst input)
       \<lparr>sel_heap = heap_of input, templates = [], matches = [], sel_thrown = None\<rparr>"

text \<open>The state when the first \<^verbatim>\<open>each\<close> is called, over the values of \<^verbatim>\<open>templates\<close>.\<close>

definition each_templates :: "(string \<times> obj) list \<Rightarrow> selection \<Rightarrow> state" where
  "each_templates input sel =
     (let s = \<lparr>files = files_of input, heap = sel_heap sel, pending = map snd (templates sel),
               running = [], phase = Seeds, called = False, result = None, thrown = None,
               followers = map fst (matches sel), trace = []\<rparr>
      in if templates sel = [] then renderFiles None (s\<lparr>called := True\<rparr>) else s)"

text \<open>
  A run of the function \<^verbatim>\<open>plugin\<close> returns, on a collection and under a schedule: the
  state the steps of the schedule lead to. The collection is listed in the order in which
  \<^verbatim>\<open>Object.keys\<close> enumerates it. An exception while the partials are read or during
  selection ends the run before any render.
\<close>

definition run :: "env \<Rightarrow> config \<Rightarrow> (string \<times> obj) list \<Rightarrow> event list \<Rightarrow> state" where
  "run e cfg input sched =
     (let idle = \<lparr>files = files_of input, heap = heap_of input, pending = [], running = [],
                  phase = Seeds, called = False, result = None, thrown = None,
                  followers = [], trace = []\<rparr>
      in case with_partials e cfg of
           Inl err \<Rightarrow> idle\<lparr>thrown := Some err\<rparr>
         | Inr cfg' \<Rightarrow>
             (let sel = select e cfg' input
              in if sel_thrown sel \<noteq> None
                 then idle\<lparr>heap := sel_heap sel, thrown := sel_thrown sel\<rparr>
                 else exec e cfg' sched (each_templates input sel)))"

section \<open>Well-formed objects and an example set-up\<close>

text \<open>A JavaScript object has no two properties of the same name, at any depth.\<close>

fun wf_val :: "jsval \<Rightarrow> bool" where
  "wf_val (JObj ps) = (distinct (map fst ps) \<and> (\<forall>p \<in> set ps. wf_val (snd p)))"
| "wf_val _ = True"

text \<open>
  A set-up to run the plugin on: one engine, whose renderer fails on a context with a
  property \<^verbatim>\<open>fail\<close> and otherwise wraps the contents; a check that selects the files
  with a layout of their own or a default; paths joined with a slash.
\<close>

definition demo_render :: renderer where
  "demo_render str clone =
     (case map_of clone ''fail'' of
        Some _ \<Rightarrow> Inl (Error ''boom'')
      | None \<Rightarrow> Inr (''<'' @ js_to_string (map_of clone ''contents'') @ ''>''))"

definition demo_env :: env where
  "demo_env =
     \<lparr> consolidate = (\<lambda>name. if name = ''handlebars'' then Some demo_render else None),
       check = (\<lambda>file data pat d lk. truthy (or_js (map_of data (js_to_string lk)) d)),
       readPartials = (\<lambda>p x d. Inr (JObj [])),
       metadata = [],
       path = (\<lambda>d lp. js_to_string d @ ''/'' @ lp) \<rparr>"

text \<open>What \<^verbatim>\<open>plugin({engine: 'handlebars', rename: r})\<close> leaves in its local variables.\<close>

definition demo_cfg :: "bool \<Rightarrow> config" where
  "demo_cfg r =
     \<lparr> def = None, dir = Some (JStr ''layouts''), engine = Some (JStr ''handlebars''),
       partialExtension = None, layoutExtension = Some (JStr []), partials = None,
       pattern = None, rename = Some (JBool r), layoutKey = Some (JStr ''layout''),
       params = [] \<rparr>"

section \<open>What selection is to achieve\<close>

text \<open>
  The terms in which the selector is specified: a file passes the check, taken on the file
  as it came in; its resolved template path is the layout path of its layout field under
  the layout directory.
\<close>

definition passes :: "env \<Rightarrow> config \<Rightarrow> string \<times> obj \<Rightarrow> bool" where
  "passes e cfg = (\<lambda>(file, data). check e file data (pattern cfg) (def cfg) (layoutKey cfg))"

definition template_of :: "env \<Rightarrow> config \<Rightarrow> obj \<Rightarrow> error + string" where
  "template_of e cfg data =
     (case stringify data of
        Inl err \<Rightarrow> Inl err
      | Inr d \<Rightarrow>
          (case getLayoutPath cfg (map_of d (js_to_string (layoutKey cfg))) of
             Inl err \<Rightarrow> Inl err
           | Inr lp \<Rightarrow> Inr (path e (dir cfg) lp)))"

text \<open>
  Three facts about the selection loop after the files \<open>pre\<close>: the seeds and the
  followers are files that pass and no file is both; the loop has written to the files
  that pass only, and has left them with their contents as a string; and, while nothing
  was thrown, each template path has the first file that resolves to it as its seed and
  the other files that pass are the followers, in order.
\<close>

definition sel_sets :: "env \<Rightarrow> config \<Rightarrow> (string \<times> obj) list \<Rightarrow> selection \<Rightarrow> bool" where
  "sel_sets e cfg pre st \<longleftrightarrow>
     snd ` set (templates st) \<subseteq> fst ` {x \<in> set pre. passes e cfg x}
   \<and> fst ` set (matches st) \<subseteq> fst ` {x \<in> set pre. passes e cfg x}
   \<and> snd ` set (templates st) \<inter> fst ` set (matches st) = {}"

definition sel_heaps :: "env \<Rightarrow> config \<Rightarrow> heap \<Rightarrow> (string \<times> obj) list \<Rightarrow> selection \<Rightarrow> bool" where
  "sel_heaps e cfg h0 pre st \<longleftrightarrow>
     (\<forall>f. f \<notin> fst ` set pre \<longrightarrow> sel_heap st f = h0 f)
   \<and> (\<forall>x \<in> set pre. \<not> passes e cfg x \<longrightarrow> sel_heap st (fst x) = snd x)
   \<and> (sel_thrown st = None \<longrightarrow>
        (\<forall>x \<in> set pre. passes e cfg x \<longrightarrow> stringify (snd x) = Inr (sel_heap st (fst x))))"

definition sel_spec :: "env \<Rightarrow> config \<Rightarrow> (string \<times> obj) list \<Rightarrow> selection \<Rightarrow> bool" where
  "sel_spec e cfg pre st \<longleftrightarrow>
     (sel_thrown st = None \<longrightarrow>
        (\<forall>t. map_of (templates st) t =
               map_option fst (find (\<lambda>y. passes e cfg y \<and> template_of e cfg (snd y) = Inr t) pre))
      \<and> map fst (matches st) =
          map fst (filter (\<lambda>y. passes e cfg y \<and>
                     (\<forall>t. template_of e cfg (snd y) = Inr t \<longrightarrow> map_of (templates st) t \<noteq> Some (fst y))) pre)
      \<and> (\<forall>y \<in> set pre. passes e cfg y \<longrightarrow> (\<exists>t. template_of e cfg (snd y) = Inr t)))"

text \<open>Two posts with the same layout and a file without one.\<close>

definition demo_input :: "(string \<times> obj) list" where
  "demo_input =
     [(''a.md'', [(''layout'', JStr ''post''), (''contents'', JBuffer ''A'')]),
      (''b.md'', [(''layout'', JStr ''post''), (''contents'', JBuffer ''B'')]),
      (''c.bin'', [(''contents'', JBuffer ''C'')])]"

section \<open>What a run is to achieve\<close>

text \<open>The phase of a trace entry, and the error of the first render that failed.\<close>

fun entry_phase :: "entry \<Rightarrow> phase" where
  "entry_phase (Converting ph k) = ph"
| "entry_phase (Converted ph k r) = ph"
| "entry_phase (Failed ph k r err) = ph"

fun first_failure :: "entry list \<Rightarrow> error option" where
  "first_failure [] = None"
| "first_failure (Failed ph k r err # es) = Some err"
| "first_failure (Converting ph k # es) = first_failure es"
| "first_failure (Converted ph k r # es) = first_failure es"

text \<open>
  How the trace and the control of the run go together. While the seeds are rendered the
  trace has entries of that phase only, the callback of the first \<^verbatim>\<open>each\<close> has been
  called exactly when a render has failed, and \<^verbatim>\<open>done\<close> has then been given the first
  failure; once the followers are rendered, no seed has failed.
\<close>

definition inv_trace :: "state \<Rightarrow> bool" where
  "inv_trace s \<longleftrightarrow>
     (phase s = Seeds \<longrightarrow>
        (\<forall>ent \<in> set (trace s). entry_phase ent = Seeds)
      \<and> (called s \<longleftrightarrow> first_failure (trace s) \<noteq> None)
      \<and> result s = (if called s then Some (first_failure (trace s)) else None))
   \<and> (phase s = Followers \<longrightarrow> (\<forall>k r err. Failed Seeds k r err \<notin> set (trace s)))"

text \<open>Two posts with the same layout, the first of which the renderer fails on.\<close>

definition failing_input :: "(string \<times> obj) list" where
  "failing_input =
     [(''a.md'', [(''layout'', JStr ''post''), (''fail'', JBool True), (''contents'', JBuffer ''A'')]),
      (''b.md'', [(''layout'', JStr ''post''), (''contents'', JBuffer ''B'')])]"

text \<open>
  What renaming keeps true of a run: no object is in the collection under two keys; an
  object whose render is in flight, or has failed, is in the collection under no key; no
  two renders in flight hold the same object; and the callback of a render in flight
  will store under the renamed key.
\<close>

definition inv_rename :: "state \<Rightarrow> bool" where
  "inv_rename s \<longleftrightarrow>
     (\<forall>k k' r. map_of (files s) k = Some r \<longrightarrow> map_of (files s) k' = Some r \<longrightarrow> k = k')
   \<and> (\<forall>t \<in> set (running s). \<forall>k. map_of (files s) k \<noteq> Some (t_data t))
   \<and> distinct (map t_data (running s))
   \<and> (\<forall>ph k r err. Failed ph k r err \<in> set (trace s) \<longrightarrow>
         (\<forall>k'. map_of (files s) k' \<noteq> Some r) \<and> r \<notin> t_data ` set (running s))
   \<and> (\<forall>t \<in> set (running s). t_file t = renamed (t_key t))"

text \<open>A post on its own, and two files whose renamed keys are the same.\<close>

definition post_input :: "(string \<times> obj) list" where
  "post_input = [(''post.md'', [(''layout'', JStr ''post''), (''contents'', JBuffer ''P'')])]"


text \<open>Two posts with the same layout, the first under the empty key.\<close>

definition empty_key_input :: "(string \<times> obj) list" where
  "empty_key_input =
     [('''', [(''layout'', JStr ''post''), (''contents'', JBuffer ''E'')]),
      (''b.md'', [(''layout'', JStr ''post''), (''contents'', JBuffer ''B'')])]"

text \<open>Two posts with the same layout, the second under the key \<^verbatim>\<open>__proto__\<close>.\<close>

definition proto_key_input :: "(string \<times> obj) list" where
  "proto_key_input =
     [(''a.md'', [(''layout'', JStr ''post''), (''contents'', JBuffer ''A'')]),
      (''__proto__'', [(''layout'', JStr ''post''), (''contents'', JBuffer ''B'')])]"

section \<open>Splitting at a separator\<close>

lemma js_split_nonempty: "js_split c s \<noteq> []"
  by (induction s) (auto split: list.splits)

lemma js_split_no_sep: "c \<notin> set s \<Longrightarrow> js_split c s = [s]"
  by (induction s) auto

lemma js_split_sep: "c \<in> set s \<Longrightarrow> \<exists>a b rest. js_split c s = a # b # rest"
proof (induction s)
  case Nil
  then show ?case by simp
next
  case (Cons x xs)
  obtain seg segs where sp: "js_split c xs = seg # segs"
    using js_split_nonempty [of c xs] by (cases "js_split c xs") auto
  show ?case
  proof (cases "x = c")
    case True
    with sp show ?thesis by simp
  next
    case False
    with Cons.prems have "c \<in> set xs" by simp
    from Cons.IH [OF this] False show ?thesis by auto
  qed
qed

lemma pop_last: "segs \<noteq> [] \<Longrightarrow> pop segs = last segs"
  by (cases segs rule: rev_cases) (simp_all add: pop_def)

lemma last_js_split: "last (js_split c s) = rev (takeWhile (\<lambda>x. x \<noteq> c) (rev s))"
proof (induction s)
  case Nil
  show ?case by simp
next
  case (Cons x xs)
  show ?case
  proof (cases "x = c")
    case True
    with Cons js_split_nonempty [of c xs] show ?thesis
      by (simp add: takeWhile_append)
  next
    case False
    show ?thesis
    proof (cases "c \<in> set xs")
      case True
      from js_split_sep [OF True] obtain a b rest where "js_split c xs = a # b # rest"
        by blast
      with Cons False True show ?thesis
        by (auto simp add: takeWhile_append)
    next
      case notin: False
      with False show ?thesis
        by (simp add: js_split_no_sep takeWhile_append)
    qed
  qed
qed

text \<open>The segment \<^verbatim>\<open>split('/').pop()\<close> yields is what follows the last slash.\<close>

lemma pop_js_split: "pop (js_split c s) = rev (takeWhile (\<lambda>x. x \<noteq> c) (rev s))"
  by (simp add: pop_last js_split_nonempty last_js_split)

section \<open>The layout path\<close>

text \<open>
  C4, as the code has it. \<^verbatim>\<open>getLayoutPath\<close> returns a path exactly when the layout id,
  or the default standing in for a falsy layout id, is a string. With the layout id and the
  default both absent it does not return: \<^verbatim>\<open>split\<close> is read off \<^verbatim>\<open>undefined\<close> and a
  TypeError is thrown.
\<close>

theorem getLayoutPath_returns_iff:
  "((\<exists>p. getLayoutPath cfg layout = Inr p) \<longleftrightarrow> (\<exists>l. or_js layout (def cfg) = Some (JStr l)))
   \<and> (layout = None \<and> def cfg = None \<longrightarrow> (\<exists>m. getLayoutPath cfg layout = Inl (TypeError m)))"
  by (auto simp add: getLayoutPath_def or_js_def split: option.splits jsval.splits)

theorem getLayoutPath_returns_iff_witness:
  "or_js (Some (JStr ''post'')) (def (demo_cfg False)) = Some (JStr ''post'')
   \<and> (\<exists>p. getLayoutPath (demo_cfg False) (Some (JStr ''post'')) = Inr p)"
  using getLayoutPath_returns_iff [of "demo_cfg False" "Some (JStr ''post'')"]
  by (simp add: or_js_def)

text \<open>
  C4, as the claim states it, fails: with no layout id and no default the function raises
  a TypeError instead of returning an empty id.
\<close>

theorem getLayoutPath_both_absent_throws:
  "getLayoutPath (demo_cfg False) None = Inl (TypeError ''Cannot read property 'split' of undefined'')"
  by (simp add: getLayoutPath_def demo_cfg_def or_js_def)

text \<open>
  C5. A layout id that is absent or empty gives way to the default; the id then keeps its
  form when what follows its last slash has a dot, and otherwise gets a dot and the layout
  extension appended. With the empty extension the result ends in the dot.
\<close>

theorem getLayoutPath_appends_extension:
  assumes "layoutExtension cfg = Some (JStr ext)"
    and "layout = None \<or> layout = Some (JStr s)"
    and "(layout = Some (JStr s) \<and> s \<noteq> []) \<or> def cfg = Some (JStr d)"
  shows "let l = (if layout = Some (JStr s) \<and> s \<noteq> [] then s else d);
             dotted = (CHR ''.'' \<in> set (rev (takeWhile (\<lambda>x. x \<noteq> CHR ''/'') (rev l))))
         in getLayoutPath cfg layout = Inr (if dotted then l else l @ ''.'' @ ext)
            \<and> (ext = [] \<and> \<not> dotted \<longrightarrow> getLayoutPath cfg layout = Inr (l @ ''.''))"
  using assms
  by (auto simp add: getLayoutPath_def or_js_def pop_js_split test_dot_def Let_def)

theorem getLayoutPath_appends_extension_witness:
  "layoutExtension (demo_cfg False) = Some (JStr [])
   \<and> getLayoutPath (demo_cfg False) (Some (JStr ''a.b/post'')) = Inr ''a.b/post.''"
  using getLayoutPath_appends_extension
          [of "demo_cfg False" "[]" "Some (JStr ''a.b/post'')" "''a.b/post''" "[]"]
  by (simp add: demo_cfg_def)

section \<open>Set-up\<close>

text \<open>
  C10. The plugin called with a string does what it does called with an object whose only
  property is \<^verbatim>\<open>engine\<close>, that string: the same error for the empty string or a
  name \<^verbatim>\<open>consolidate\<close> has no member of, and otherwise the same local variables, every
  other option at its default.
\<close>

theorem plugin_string_shorthand:
  \<open>plugin e (Some (JStr s)) = plugin e (Some (JObj [(''engine'', JStr s)]))
   \<and> plugin e (Some (JStr s)) =
       (if s = [] then Inl (Error ''"engine" option required'')
        else if consolidate_get e s = None then Inl (Error (''Unknown template engine: "'' @ s @ ''"''))
        else Inr \<lparr> def = None, dir = Some (JStr ''layouts''), engine = Some (JStr s),
                    partialExtension = None, layoutExtension = Some (JStr []),
                    partials = None, pattern = None, rename = None,
                    layoutKey = Some (JStr ''layout''), params = [] \<rparr>)\<close>
  by (simp add: plugin_def normalise_opts_def or_js_def Let_def omit_def settings_def)

theorem plugin_string_shorthand_witness:
  \<open>plugin demo_env (Some (JObj [(''engine'', JStr ''handlebars'')])) =
     Inr \<lparr> def = None, dir = Some (JStr ''layouts''), engine = Some (JStr ''handlebars''),
           partialExtension = None, layoutExtension = Some (JStr []),
           partials = None, pattern = None, rename = None,
           layoutKey = Some (JStr ''layout''), params = [] \<rparr>\<close>
proof -
  note h = plugin_string_shorthand [where e = demo_env and s = "''handlebars''"]
  have known: "consolidate_get demo_env ''handlebars'' \<noteq> None"
    by (simp add: demo_env_def consolidate_get_def)
  have "plugin demo_env (Some (JObj [(''engine'', JStr ''handlebars'')])) =
      plugin demo_env (Some (JStr ''handlebars''))"
    by (rule sym) (rule conjunct1 [OF h])
  also have "\<dots> =
     Inr \<lparr> def = None, dir = Some (JStr ''layouts''), engine = Some (JStr ''handlebars''),
           partialExtension = None, layoutExtension = Some (JStr []),
           partials = None, pattern = None, rename = None,
           layoutKey = Some (JStr ''layout''), params = [] \<rparr>"
    using conjunct2 [OF h] known by simp
  finally show ?thesis .
qed

text \<open>
  What \<^verbatim>\<open>plugin\<close> throws: its first error without an \<^verbatim>\<open>engine\<close> option or with a
  falsy one, its second when \<^verbatim>\<open>consolidate\<close> has no member at all of the engine's name.
\<close>

lemma plugin_throws:
  \<open>(\<not> truthy (map_of (normalise_opts arg) ''engine'') \<longrightarrow>
      plugin e arg = Inl (Error ''"engine" option required''))
   \<and> (map_of (normalise_opts arg) ''engine'' = Some (JStr name) \<and> name \<noteq> []
        \<and> consolidate_get e name = None \<longrightarrow>
        plugin e arg = Inl (Error (''Unknown template engine: "'' @ name @ ''"'')))\<close>
  by (auto simp add: plugin_def Let_def)

lemma plugin_throws_examples:
  \<open>plugin demo_env (Some (JObj [(''engine'', JStr ''doesnotexist'')]))
       = Inl (Error ''Unknown template engine: "doesnotexist"'')
   \<and> plugin demo_env (Some (JObj [(''rename'', JBool True)]))
       = Inl (Error ''"engine" option required'')
   \<and> plugin demo_env None = Inl (Error ''"engine" option required'')\<close>
  by (simp add: plugin_def normalise_opts_def or_js_def demo_env_def consolidate_get_def
        object_prototype_def Let_def)

text \<open>
  C8 fails on the code. The test \<^verbatim>\<open>!consolidate[opts.engine]\<close> asks whether the module
  object has a truthy member of that name, not whether the name is an engine. With
  \<^verbatim>\<open>toString\<close>, which every object inherits, and with \<^verbatim>\<open>requires\<close>, which the module
  exports beside its engines, \<^verbatim>\<open>plugin\<close> throws nothing and returns its function,
  though the engines have no such name. Run on a collection, the function then calls what
  is no renderer: with \<^verbatim>\<open>requires\<close> the call throws after the selection loop has
  written to the file; with \<^verbatim>\<open>toString\<close> nothing answers and \<^verbatim>\<open>done\<close> is never called.
\<close>

theorem plugin_accepts_non_engine:
  \<open>consolidate demo_env ''toString'' = None \<and> consolidate demo_env ''requires'' = None
   \<and> plugin demo_env (Some (JObj [(''engine'', JStr ''toString'')]))
       = Inr \<lparr> def = None, dir = Some (JStr ''layouts''), engine = Some (JStr ''toString''),
               partialExtension = None, layoutExtension = Some (JStr []),
               partials = None, pattern = None, rename = None,
               layoutKey = Some (JStr ''layout''), params = [] \<rparr>
   \<and> plugin demo_env (Some (JStr ''requires''))
       = Inr \<lparr> def = None, dir = Some (JStr ''layouts''), engine = Some (JStr ''requires''),
               partialExtension = None, layoutExtension = Some (JStr []),
               partials = None, pattern = None, rename = None,
               layoutKey = Some (JStr ''layout''), params = [] \<rparr>
   \<and> thrown (run demo_env ((demo_cfg False)\<lparr>engine := Some (JStr ''requires'')\<rparr>) post_input [Start 0])
       = Some (TypeError ''render is not a function'')
   \<and> heap (run demo_env ((demo_cfg False)\<lparr>engine := Some (JStr ''requires'')\<rparr>) post_input [Start 0])
         ''post.md''
       = [(''layout'', JStr ''post''), (''contents'', JStr ''P'')]
   \<and> result (run demo_env ((demo_cfg False)\<lparr>engine := Some (JStr ''toString'')\<rparr>) post_input
         [Start 0, Answer 0]) = None\<close>
  by (simp add: plugin_def normalise_opts_def or_js_def demo_env_def consolidate_get_def
        object_prototype_def omit_def settings_def post_input_def demo_cfg_def
        run_def with_partials_def select_def select_file_def heap_of_def files_of_def
        stringify_def getLayoutPath_def pop_def test_dot_def Let_def has_truthy_def assign_def
        each_templates_def renderFiles_def each_matches_def plugin_done_def
        step_def convert_start_def convert_callback_def each_callback_def
        build_clone_def extend_obj_def)

section \<open>The render context\<close>

lemma map_of_extend:
  "distinct (map fst source) \<Longrightarrow> map_of (extend_obj target source) = map_of target ++ map_of source"
  unfolding extend_obj_def
proof (induction source arbitrary: target)
  case Nil
  show ?case by simp
next
  case (Cons p ps)
  obtain k v where p: "p = (k, v)" by (cases p)
  with Cons.prems have "map_of ps k = None"
    by (simp add: map_of_eq_None_iff)
  then have "map_of (AList.update k v target) ++ map_of ps = map_of target ++ map_of ((k, v) # ps)"
    by (intro ext) (simp add: update_conv' map_add_def split: option.splits)
  moreover have "map_of (fold (\<lambda>(name, copy). AList.update name copy) ps (AList.update k v target)) =
      map_of (AList.update k v target) ++ map_of ps"
    using Cons.IH [of "AList.update k v target"] Cons.prems by simp
  ultimately show ?case
    by (simp only: p fold_simps case_prod_conv)
qed

lemma update_append: "k \<notin> fst ` set al \<Longrightarrow> AList.update k v al = al @ [(k, v)]"
  by (induction al) auto

text \<open>The deep copy into names the target does not have appends the source as it is.\<close>

lemma extend_deep_append:
  "distinct (map fst source) \<Longrightarrow> (\<forall>p \<in> set source. wf_val (snd p)) \<Longrightarrow>
   fst ` set target \<inter> fst ` set source = {} \<Longrightarrow> extend_deep target source = target @ source"
proof (induction target source rule: extend_deep.induct)
  case (1 target)
  show ?case by simp
next
  case (2 target name copy rest)
  have nt: "name \<notin> fst ` set target" using "2.prems"(3) by auto
  then have none: "map_of target name = None"
    by (simp add: map_of_eq_None_iff)
  let ?v = "(case copy of JObj c \<Rightarrow> JObj (extend_deep (case map_of target name of Some (JObj src) \<Rightarrow> src | _ \<Rightarrow> []) c) | _ \<Rightarrow> copy)"
  have v: "?v = copy"
  proof (cases copy)
    case (JObj c)
    have "wf_val (JObj c)" using "2.prems"(2) JObj by simp
    then have "extend_deep [] c = [] @ c"
      using "2.IH"(1) [OF JObj] none by (simp add: JObj)
    with JObj none show ?thesis by simp
  qed simp_all
  have upd: "AList.update name ?v target = target @ [(name, copy)]"
    using nt v by (simp add: update_append)
  have "extend_deep (AList.update name ?v target) rest = AList.update name ?v target @ rest"
    apply (rule "2.IH"(2))
    using "2.prems" upd by auto
  with upd show ?case by simp
qed

text \<open>
  C3. The context holds, under every name, the value of the file if the file has the name,
  else that of the site metadata, else that of the extra parameters, whose deep copy is
  equal to them; the three objects of the example give \<^verbatim>\<open>{a:1,b:2,c:3}\<close>.
\<close>

theorem build_clone_precedence:
  assumes "wf_val (JObj ps)" and "distinct (map fst md)" and "distinct (map fst data)"
  shows "map_of (build_clone ps md data) k =
     (case map_of data k of
        Some v \<Rightarrow> Some v
      | None \<Rightarrow> (case map_of md k of Some v \<Rightarrow> Some v | None \<Rightarrow> map_of ps k))
   \<and> extend_deep [] ps = ps
   \<and> build_clone [(''a'', JNum 1), (''b'', JNum 1)] [(''b'', JNum 2), (''c'', JNum 2)] [(''c'', JNum 3)]
       = [(''a'', JNum 1), (''b'', JNum 2), (''c'', JNum 3)]"
proof (intro conjI)
  show deep: "extend_deep [] ps = ps"
    using extend_deep_append [of ps "[]"] assms(1) by simp
  show "map_of (build_clone ps md data) k =
     (case map_of data k of
        Some v \<Rightarrow> Some v
      | None \<Rightarrow> (case map_of md k of Some v \<Rightarrow> Some v | None \<Rightarrow> map_of ps k))"
    using assms
    by (simp add: build_clone_def deep Let_def map_of_extend map_add_def split: option.splits)
  show "build_clone [(''a'', JNum 1), (''b'', JNum 1)] [(''b'', JNum 2), (''c'', JNum 2)] [(''c'', JNum 3)]
       = [(''a'', JNum 1), (''b'', JNum 2), (''c'', JNum 3)]"
    by (simp add: build_clone_def extend_obj_def)
qed

theorem build_clone_precedence_witness:
  "wf_val (JObj [(''a'', JNum 1), (''b'', JObj [(''x'', JNum 1)])])
   \<and> map_of (build_clone [(''a'', JNum 1), (''b'', JObj [(''x'', JNum 1)])]
               [(''b'', JNum 2), (''c'', JNum 2)] [(''c'', JNum 3)]) ''b'' = Some (JNum 2)
   \<and> extend_deep [] [(''a'', JNum 1), (''b'', JObj [(''x'', JNum 1)])]
       = [(''a'', JNum 1), (''b'', JObj [(''x'', JNum 1)])]"
  using build_clone_precedence
          [of "[(''a'', JNum 1), (''b'', JObj [(''x'', JNum 1)])]"
              "[(''b'', JNum 2), (''c'', JNum 2)]" "[(''c'', JNum 3)]" "''b''"]
  by simp

section \<open>Selection\<close>

lemma select_files_snoc:
  "sel_thrown st = None \<Longrightarrow>
   select_files e cfg (ks @ [k]) st =
     (let st' = select_files e cfg ks st
      in if sel_thrown st' \<noteq> None then st' else select_file e cfg k st')"
  by (induction ks arbitrary: st) (auto simp add: Let_def)

lemma set_update_subset: "set (AList.update k v al) \<subseteq> insert (k, v) (set al)"
  by (induction al) auto

lemma select_file_cases:
  assumes "sel_thrown st = None"
  obtains
    (skip) "\<not> check e key (sel_heap st key) (pattern cfg) (def cfg) (layoutKey cfg)"
      "select_file e cfg key st = st"
  | (throw_str) err where "check e key (sel_heap st key) (pattern cfg) (def cfg) (layoutKey cfg)"
      "stringify (sel_heap st key) = Inl err"
      "select_file e cfg key st = st\<lparr>sel_thrown := Some err\<rparr>"
  | (throw_path) data err where "check e key (sel_heap st key) (pattern cfg) (def cfg) (layoutKey cfg)"
      "stringify (sel_heap st key) = Inr data"
      "template_of e cfg (sel_heap st key) = Inl err"
      "select_file e cfg key st = st\<lparr>sel_heap := (sel_heap st)(key := data), sel_thrown := Some err\<rparr>"
  | (seed) data t where "check e key (sel_heap st key) (pattern cfg) (def cfg) (layoutKey cfg)"
      "stringify (sel_heap st key) = Inr data"
      "template_of e cfg (sel_heap st key) = Inr t"
      "\<not> has_truthy (templates st) t"
      "select_file e cfg key st =
         st\<lparr>sel_heap := (sel_heap st)(key := data), templates := assign (templates st) t key\<rparr>"
  | (follow) data t where "check e key (sel_heap st key) (pattern cfg) (def cfg) (layoutKey cfg)"
      "stringify (sel_heap st key) = Inr data"
      "template_of e cfg (sel_heap st key) = Inr t"
      "has_truthy (templates st) t"
      "select_file e cfg key st =
         st\<lparr>sel_heap := (sel_heap st)(key := data), matches := assign (matches st) key key\<rparr>"
proof (cases "check e key (sel_heap st key) (pattern cfg) (def cfg) (layoutKey cfg)")
  case False
  then show ?thesis using skip by (simp add: select_file_def)
next
  case chk: True
  show ?thesis
  proof (cases "stringify (sel_heap st key)")
    case (Inl err)
    with chk show ?thesis using throw_str by (simp add: select_file_def)
  next
    case (Inr data)
    show ?thesis
    proof (cases "getLayoutPath cfg (map_of data (js_to_string (layoutKey cfg)))")
      case (Inl err)
      with chk Inr show ?thesis using throw_path [of data err]
        by (simp add: select_file_def template_of_def Let_def)
    next
      case lp: (Inr lp)
      show ?thesis
      proof (cases "has_truthy (templates st) (path e (dir cfg) lp)")
        case True
        with chk Inr lp show ?thesis using follow [of data "path e (dir cfg) lp"]
          by (simp add: select_file_def template_of_def Let_def)
      next
        case False
        with chk Inr lp show ?thesis using seed [of data "path e (dir cfg) lp"]
          by (simp add: select_file_def template_of_def Let_def)
      qed
    qed
  qed
qed


lemma values_update_subset: "snd ` set (AList.update k v al) \<subseteq> insert v (snd ` set al)"
  using set_update_subset [of k v al] by force

lemma values_assign_subset: "snd ` set (assign al k v) \<subseteq> insert v (snd ` set al)"
  using values_update_subset [of k v al] by (auto simp add: assign_def)

lemma keys_assign_subset: "fst ` set (assign al k v) \<subseteq> insert k (fst ` set al)"
  by (auto simp add: assign_def dom_update)

lemma assign_update: "k \<noteq> ''__proto__'' \<Longrightarrow> assign al k v = AList.update k v al"
  by (simp add: assign_def)

lemma proto_inherited: "''__proto__'' \<in> set object_prototype"
  by (simp add: object_prototype_def)

text \<open>What one visit does to the heap.\<close>

lemma select_file_heap:
  assumes "sel_thrown st = None"
  shows "(\<not> check e k (sel_heap st k) (pattern cfg) (def cfg) (layoutKey cfg) \<and>
            select_file e cfg k st = st)
       \<or> (check e k (sel_heap st k) (pattern cfg) (def cfg) (layoutKey cfg) \<and>
            sel_thrown (select_file e cfg k st) \<noteq> None \<and>
            (\<forall>f. f \<noteq> k \<longrightarrow> sel_heap (select_file e cfg k st) f = sel_heap st f))
       \<or> (check e k (sel_heap st k) (pattern cfg) (def cfg) (layoutKey cfg) \<and>
            sel_thrown (select_file e cfg k st) = None \<and>
            stringify (sel_heap st k) = Inr (sel_heap (select_file e cfg k st) k) \<and>
            (\<forall>f. f \<noteq> k \<longrightarrow> sel_heap (select_file e cfg k st) f = sel_heap st f))"
  by (rule select_file_cases [OF assms, where e = e and cfg = cfg and key = k])
     (simp_all add: assms)

lemma select_heaps:
  assumes "distinct (map fst pre)" and "\<forall>x \<in> set pre. h0 (fst x) = snd x"
  shows "sel_heaps e cfg h0 pre
           (select_files e cfg (map fst pre)
              \<lparr>sel_heap = h0, templates = [], matches = [], sel_thrown = None\<rparr>)"
  using assms
proof (induction pre rule: rev_induct)
  case Nil
  show ?case by (simp add: sel_heaps_def)
next
  case (snoc x ys)
  let ?init = "\<lparr>sel_heap = h0, templates = [], matches = [], sel_thrown = None\<rparr>"
  let ?st = "select_files e cfg (map fst ys) ?init"
  let ?st' = "select_files e cfg (map fst (ys @ [x])) ?init"
  obtain k dk where x: "x = (k, dk)" by (cases x)
  have IH: "sel_heaps e cfg h0 ys ?st"
    using snoc by simp
  have k_new: "k \<notin> fst ` set ys" using snoc.prems(1) x by simp
  have h0k: "h0 k = dk" using snoc.prems(2) x by simp
  have unfold: "?st' = (if sel_thrown ?st \<noteq> None then ?st else select_file e cfg k ?st)"
    using select_files_snoc [where st = ?init and e = e and cfg = cfg and ks = "map fst ys" and k = k] x
    by (simp add: Let_def)
  have heapk: "sel_heap ?st k = dk"
    using IH k_new h0k by (simp add: sel_heaps_def)
  have other: "\<forall>y \<in> set ys. fst y \<noteq> k" using k_new by auto
  from IH have i1: "\<And>f. f \<notin> fst ` set ys \<Longrightarrow> sel_heap ?st f = h0 f"
    and i2: "\<And>y. y \<in> set ys \<Longrightarrow> \<not> passes e cfg y \<Longrightarrow> sel_heap ?st (fst y) = snd y"
    and i3: "\<And>y. sel_thrown ?st = None \<Longrightarrow> y \<in> set ys \<Longrightarrow> passes e cfg y \<Longrightarrow>
               stringify (snd y) = Inr (sel_heap ?st (fst y))"
    by (simp_all add: sel_heaps_def)
  show ?case
  proof (cases "sel_thrown ?st = None")
    case False
    then have same: "?st' = ?st" using unfold by simp
    have px: "\<not> passes e cfg x \<Longrightarrow> sel_heap ?st (fst x) = snd x"
      using heapk x by simp
    show ?thesis
      unfolding sel_heaps_def same
      using False i1 i2 px by auto
  next
    case ok: True
    then have st': "?st' = select_file e cfg k ?st" using unfold by simp
    have pk: "passes e cfg x \<longleftrightarrow> check e k (sel_heap ?st k) (pattern cfg) (def cfg) (layoutKey cfg)"
      using heapk x by (simp add: passes_def)
    from select_file_heap [OF ok, of e k cfg]
    consider (a) "\<not> passes e cfg x" "select_file e cfg k ?st = ?st"
      | (b) "passes e cfg x" "sel_thrown (select_file e cfg k ?st) \<noteq> None"
            "\<forall>f. f \<noteq> k \<longrightarrow> sel_heap (select_file e cfg k ?st) f = sel_heap ?st f"
      | (c) "passes e cfg x" "sel_thrown (select_file e cfg k ?st) = None"
            "stringify dk = Inr (sel_heap (select_file e cfg k ?st) k)"
            "\<forall>f. f \<noteq> k \<longrightarrow> sel_heap (select_file e cfg k ?st) f = sel_heap ?st f"
      using pk heapk by auto
    then show ?thesis
    proof cases
      case a
      show ?thesis
        unfolding sel_heaps_def st' a(2)
        using a(1) i1 i2 i3 ok heapk x by auto
    next
      case b
      show ?thesis
        unfolding sel_heaps_def st'
        using b i1 i2 other x by auto
    next
      case c
      show ?thesis
        unfolding sel_heaps_def st'
        using c i1 i2 i3 ok other x by auto
    qed
  qed
qed


lemma select_sets:
  assumes "distinct (map fst pre)" and "\<forall>x \<in> set pre. h0 (fst x) = snd x"
  shows "sel_sets e cfg pre
           (select_files e cfg (map fst pre)
              \<lparr>sel_heap = h0, templates = [], matches = [], sel_thrown = None\<rparr>)"
  using assms
proof (induction pre rule: rev_induct)
  case Nil
  show ?case by (simp add: sel_sets_def)
next
  case (snoc x ys)
  let ?init = "\<lparr>sel_heap = h0, templates = [], matches = [], sel_thrown = None\<rparr>"
  let ?st = "select_files e cfg (map fst ys) ?init"
  let ?st' = "select_files e cfg (map fst (ys @ [x])) ?init"
  define S where "S = fst ` {y \<in> set ys. passes e cfg y}"
  define S' where "S' = fst ` {y \<in> set (ys @ [x]). passes e cfg y}"
  define T where "T = snd ` set (templates ?st)"
  define M where "M = fst ` set (matches ?st)"
  obtain k dk where x: "x = (k, dk)" by (cases x)
  have IH: "sel_sets e cfg ys ?st"
    using snoc by simp
  have hp: "sel_heaps e cfg h0 ys ?st"
    using snoc.prems by (intro select_heaps) simp_all
  have k_new: "k \<notin> fst ` set ys" using snoc.prems(1) x by simp
  have h0k: "h0 k = dk" using snoc.prems(2) x by simp
  have unfold: "?st' = (if sel_thrown ?st \<noteq> None then ?st else select_file e cfg k ?st)"
    using select_files_snoc [where st = ?init and e = e and cfg = cfg and ks = "map fst ys" and k = k] x
    by (simp add: Let_def)
  have heapk: "sel_heap ?st k = dk"
    using hp k_new h0k by (simp add: sel_heaps_def)
  from IH have t: "T \<subseteq> S" and m: "M \<subseteq> S" and d: "T \<inter> M = {}"
    by (simp_all add: sel_sets_def S_def T_def M_def)
  have mono: "S \<subseteq> S'" unfolding S_def S'_def by auto
  have kS: "k \<notin> S" using k_new unfolding S_def by auto
  have goal: "sel_sets e cfg (ys @ [x]) st \<longleftrightarrow>
      snd ` set (templates st) \<subseteq> S' \<and> fst ` set (matches st) \<subseteq> S'
      \<and> snd ` set (templates st) \<inter> fst ` set (matches st) = {}" for st
    by (simp add: sel_sets_def S'_def)
  have keep: "sel_sets e cfg (ys @ [x]) ?st"
    unfolding goal using t m d mono unfolding T_def M_def by blast
  show ?case
  proof (cases "sel_thrown ?st = None")
    case False
    with unfold keep show ?thesis by simp
  next
    case ok: True
    then have st': "?st' = select_file e cfg k ?st" using unfold by simp
    from ok show ?thesis
    proof (cases rule: select_file_cases [where e = e and cfg = cfg and key = k])
      case skip
      with st' keep show ?thesis by simp
    next
      case (throw_str err)
      with st' keep show ?thesis by (simp add: sel_sets_def)
    next
      case (throw_path data err)
      with st' keep show ?thesis by (simp add: sel_sets_def)
    next
      case (seed data t)
      have px: "passes e cfg x" using seed(1) heapk x by (simp add: passes_def)
      then have kS': "k \<in> S'" unfolding S'_def using x by force
      define T' where "T' = snd ` set (assign (templates ?st) t k)"
      have v: "T' \<subseteq> insert k T"
        unfolding T'_def T_def by (rule values_assign_subset)
      have 1: "T' \<subseteq> S'" using v t mono kS' by blast
      have 2: "M \<subseteq> S'" using m mono by blast
      have 3: "T' \<inter> M = {}" using v d m kS by blast
      show ?thesis
        unfolding st' seed(5) goal using 1 2 3 by (simp add: T'_def M_def)
    next
      case (follow data t)
      have px: "passes e cfg x" using follow(1) heapk x by (simp add: passes_def)
      then have kS': "k \<in> S'" unfolding S'_def using x by force
      define M' where "M' = fst ` set (assign (matches ?st) k k)"
      have keys: "M' \<subseteq> insert k M"
        unfolding M'_def M_def by (rule keys_assign_subset)
      have 1: "T \<subseteq> S'" using t mono by blast
      have 2: "M' \<subseteq> S'" using keys m mono kS' by blast
      have 3: "T \<inter> M' = {}" using keys d t kS by blast
      show ?thesis
        unfolding st' follow(5) goal using 1 2 3 by (simp add: T_def M'_def)
    qed
  qed
qed


lemma find_snoc:
  "find P (ys @ [x]) = (case find P ys of Some y \<Rightarrow> Some y | None \<Rightarrow> if P x then Some x else None)"
  by (induction ys) auto

lemma find_in_set: "find P ys = Some y \<Longrightarrow> y \<in> set ys"
  by (induction ys) (auto split: if_splits)

lemma select_spec:
  assumes "distinct (map fst pre)" and "\<forall>x \<in> set pre. h0 (fst x) = snd x"
    and "\<forall>x \<in> set pre. fst x \<noteq> [] \<and> fst x \<noteq> ''__proto__''"
    and "\<forall>x \<in> set pre. \<forall>t. template_of e cfg (snd x) = Inr t \<longrightarrow> t \<notin> set object_prototype"
  shows "sel_spec e cfg pre
           (select_files e cfg (map fst pre)
              \<lparr>sel_heap = h0, templates = [], matches = [], sel_thrown = None\<rparr>)"
  using assms
proof (induction pre rule: rev_induct)
  case Nil
  show ?case by (simp add: sel_spec_def)
next
  case (snoc x ys)
  let ?init = "\<lparr>sel_heap = h0, templates = [], matches = [], sel_thrown = None\<rparr>"
  let ?st = "select_files e cfg (map fst ys) ?init"
  let ?st' = "select_files e cfg (map fst (ys @ [x])) ?init"
  define P where "P = (\<lambda>t y. passes e cfg y \<and> template_of e cfg (snd y) = Inr t)"
  define Q where "Q = (\<lambda>ts y. passes e cfg y \<and>
      (\<forall>t. template_of e cfg (snd y) = Inr t \<longrightarrow> map_of ts t \<noteq> Some (fst y)))"
  define ts where "ts = templates ?st"
  define ms where "ms = matches ?st"
  obtain k dk where x: "x = (k, dk)" by (cases x)
  have spec: "sel_spec e cfg zs st \<longleftrightarrow>
     (sel_thrown st = None \<longrightarrow>
        (\<forall>t. map_of (templates st) t = map_option fst (find (P t) zs))
      \<and> map fst (matches st) = map fst (filter (Q (templates st)) zs)
      \<and> (\<forall>y \<in> set zs. passes e cfg y \<longrightarrow> (\<exists>t. template_of e cfg (snd y) = Inr t)))" for zs st
    by (simp add: sel_spec_def P_def Q_def)
  have IH: "sel_spec e cfg ys ?st"
    using snoc by simp
  have hp: "sel_heaps e cfg h0 ys ?st"
    using snoc.prems by (intro select_heaps) simp_all
  have sets: "sel_sets e cfg ys ?st"
    using snoc.prems by (intro select_sets [where ?h0.0 = h0]) simp_all
  have k_new: "k \<notin> fst ` set ys" using snoc.prems(1) x by simp
  have other: "\<And>y. y \<in> set ys \<Longrightarrow> fst y \<noteq> k" using k_new by auto
  have nonempty: "\<And>y. y \<in> set ys \<Longrightarrow> fst y \<noteq> []" using snoc.prems(3) by simp
  have own_key: "k \<noteq> ''__proto__''" using snoc.prems(3) x by simp
  have own_path: "\<And>t. template_of e cfg dk = Inr t \<Longrightarrow> t \<notin> set object_prototype"
    using snoc.prems(4) x by simp
  have h0k: "h0 k = dk" using snoc.prems(2) x by simp
  have unfold: "?st' = (if sel_thrown ?st \<noteq> None then ?st else select_file e cfg k ?st)"
    using select_files_snoc [where st = ?init and e = e and cfg = cfg and ks = "map fst ys" and k = k] x
    by (simp add: Let_def)
  have heapk: "sel_heap ?st k = dk"
    using hp k_new h0k by (simp add: sel_heaps_def)
  have k_unmatched: "k \<notin> fst ` set ms"
    using sets k_new unfolding sel_sets_def ms_def by auto
  show ?case
  proof (cases "sel_thrown ?st = None")
    case False
    then have same: "?st' = ?st" using unfold by simp
    from False obtain err where thr: "sel_thrown ?st = Some err" by auto
    show ?thesis unfolding same sel_spec_def by (simp add: thr)
  next
    case ok: True
    then have st': "?st' = select_file e cfg k ?st" using unfold by simp
    from IH ok have s1: "\<And>t. map_of ts t = map_option fst (find (P t) ys)"
      and s2: "map fst ms = map fst (filter (Q ts) ys)"
      and s3: "\<And>y. y \<in> set ys \<Longrightarrow> passes e cfg y \<Longrightarrow> \<exists>t. template_of e cfg (snd y) = Inr t"
      unfolding spec ts_def ms_def by simp_all
    from ok show ?thesis
    proof (cases rule: select_file_cases [where e = e and cfg = cfg and key = k])
      case skip
      have npx: "\<not> passes e cfg x" using skip(1) heapk x by (simp add: passes_def)
      have f: "find (P t) (ys @ [x]) = find (P t) ys" for t
        using npx by (simp add: find_snoc P_def split: option.splits)
      have q: "filter (Q ts) (ys @ [x]) = filter (Q ts) ys"
        using npx by (simp add: Q_def)
      show ?thesis
        unfolding st' skip(2) spec
        using s1 s2 s3 f q npx by (simp add: ts_def ms_def)
    next
      case (throw_str err)
      then show ?thesis unfolding st' by (simp add: sel_spec_def)
    next
      case (throw_path data err)
      then show ?thesis unfolding st' by (simp add: sel_spec_def)
    next
      case (seed data t)
      have px: "passes e cfg x" using seed(1) heapk x by (simp add: passes_def)
      have tx: "template_of e cfg (snd x) = Inr t" using seed(3) heapk x by simp
      have none: "find (P t) ys = None"
      proof (cases "find (P t) ys")
        case (Some y)
        then have "y \<in> set ys" by (rule find_in_set)
        then have "fst y \<noteq> []" by (rule nonempty)
        moreover have "map_of ts t = Some (fst y)" using s1 [of t] Some by simp
        ultimately have "has_truthy ts t" by (simp add: has_truthy_def)
        with seed(4) show ?thesis by (simp add: ts_def)
      qed simp
      then have tnone: "map_of ts t = None" using s1 [of t] by simp
      have "t \<noteq> ''__proto__''" using own_path [of t] tx x proto_inherited by auto
      then have upd: "assign (templates ?st) t k = AList.update t k ts"
        by (simp add: assign_update ts_def)
      have f: "map_of (AList.update t k ts) t' = map_option fst (find (P t') (ys @ [x]))" for t'
      proof (cases "t' = t")
        case True
        have "P t x" using px tx by (simp add: P_def)
        with none True x show ?thesis by (simp add: find_snoc update_conv')
      next
        case False
        then have "\<not> P t' x" using tx by (auto simp add: P_def)
        with False s1 [of t'] show ?thesis
          by (simp add: find_snoc update_conv' split: option.splits)
      qed
      have qx: "\<not> Q (AList.update t k ts) x"
        using tx x by (simp add: Q_def update_conv')
      have qy: "Q (AList.update t k ts) y \<longleftrightarrow> Q ts y" if "y \<in> set ys" for y
        using other [OF that] tnone by (auto simp add: Q_def update_conv')
      have q: "filter (Q (AList.update t k ts)) (ys @ [x]) = filter (Q ts) ys"
        using qx qy by (simp cong: filter_cong)
      have e3: "\<forall>y \<in> set (ys @ [x]). passes e cfg y \<longrightarrow> (\<exists>t. template_of e cfg (snd y) = Inr t)"
        using s3 tx by auto
      show ?thesis
        unfolding st' seed(5) spec upd
        using f q e3 s2 by (simp add: ts_def ms_def)
    next
      case (follow data t)
      have px: "passes e cfg x" using follow(1) heapk x by (simp add: passes_def)
      have tx: "template_of e cfg (snd x) = Inr t" using follow(3) heapk x by simp
      have "t \<notin> set object_prototype" using own_path [of t] tx x by simp
      then obtain f where tf: "map_of ts t = Some f"
        using follow(4) by (cases "map_of ts t") (simp_all add: ts_def has_truthy_def)
      have upd: "assign (matches ?st) k k = AList.update k k ms"
        using own_key by (simp add: assign_update ms_def)
      from tf obtain y where fy: "find (P t) ys = Some y" and f_def: "f = fst y"
        using s1 [of t] by (cases "find (P t) ys") simp_all
      have "y \<in> set ys" using fy by (rule find_in_set)
      then have fk: "f \<noteq> k" using other f_def by simp
      have f: "map_of ts t' = map_option fst (find (P t') (ys @ [x]))" for t'
      proof (cases "t' = t")
        case True
        with fy s1 [of t] show ?thesis by (simp add: find_snoc)
      next
        case False
        then have "\<not> P t' x" using tx by (auto simp add: P_def)
        with s1 [of t'] show ?thesis
          by (simp add: find_snoc split: option.splits)
      qed
      have qx: "Q ts x"
        using px tx tf fk x by (auto simp add: Q_def)
      have q: "filter (Q ts) (ys @ [x]) = filter (Q ts) ys @ [x]"
        using qx by simp
      have m: "map fst (AList.update k k ms) = map fst ms @ [k]"
        using k_unmatched by (simp add: update_append)
      have e3: "\<forall>y \<in> set (ys @ [x]). passes e cfg y \<longrightarrow> (\<exists>t. template_of e cfg (snd y) = Inr t)"
        using s3 tx by auto
      show ?thesis
        unfolding st' follow(5) spec upd
        using f q m e3 s2 x by (simp add: ts_def ms_def)
    qed
  qed
qed


lemma select_file_distinct:
  "distinct (map fst (templates st)) \<Longrightarrow> distinct (map fst (templates (select_file e cfg k st)))"
  by (simp add: select_file_def Let_def distinct_update assign_def split: sum.splits)

lemma select_files_distinct:
  "distinct (map fst (templates st)) \<Longrightarrow> distinct (map fst (templates (select_files e cfg ks st)))"
  by (induction ks arbitrary: st) (simp_all add: Let_def select_file_distinct)

lemma select_unfold:
  "select e cfg input =
     select_files e cfg (map fst input)
       \<lparr>sel_heap = heap_of input, templates = [], matches = [], sel_thrown = None\<rparr>"
  by (simp add: select_def)

lemma heap_of_input: "distinct (map fst input) \<Longrightarrow> \<forall>x \<in> set input. heap_of input (fst x) = snd x"
  by (auto simp add: heap_of_def)

lemma same_key: "distinct (map fst input) \<Longrightarrow> y \<in> set input \<Longrightarrow> z \<in> set input \<Longrightarrow>
    fst z = fst y \<Longrightarrow> z = y"
  by (metis eq_key_imp_eq_value prod.collapse)

text \<open>
  Where the selection loop does partition the files: on a collection of distinct keys,
  none of them the empty string or \<^verbatim>\<open>__proto__\<close>, whose template paths are no names
  that objects inherit, and on which selection throws nothing.
  Every template path has as its seed the first file, in the order of the collection, that
  passes the check and resolves to it, and the paths of \<^verbatim>\<open>templates\<close> are distinct;
  the followers are the other files that pass, in order; no seed is a follower, and seeds
  and followers together are the files that pass.
\<close>

lemma selection_partitions:
  assumes "distinct (map fst input)"
    and "\<forall>x \<in> set input. fst x \<noteq> [] \<and> fst x \<noteq> ''__proto__''"
    and "\<forall>x \<in> set input. \<forall>t. template_of e cfg (snd x) = Inr t \<longrightarrow> t \<notin> set object_prototype"
    and "sel_thrown (select e cfg input) = None"
  shows "(\<forall>t. map_of (templates (select e cfg input)) t =
              map_option fst (find (\<lambda>y. passes e cfg y \<and> template_of e cfg (snd y) = Inr t) input))
       \<and> distinct (map fst (templates (select e cfg input)))
       \<and> map fst (matches (select e cfg input)) =
           filter (\<lambda>f. f \<notin> set (map snd (templates (select e cfg input))))
             (map fst (filter (passes e cfg) input))
       \<and> set (map snd (templates (select e cfg input))) \<inter> set (map fst (matches (select e cfg input))) = {}
       \<and> set (map snd (templates (select e cfg input))) \<union> set (map fst (matches (select e cfg input)))
           = set (map fst (filter (passes e cfg) input))"
proof -
  define sel where "sel = select e cfg input"
  define ts where "ts = templates sel"
  define P where "P = (\<lambda>t y. passes e cfg y \<and> template_of e cfg (snd y) = Inr t)"
  have h: "\<forall>x \<in> set input. heap_of input (fst x) = snd x"
    using assms(1) by (rule heap_of_input)
  have spec: "sel_spec e cfg input sel"
    unfolding sel_def select_unfold using assms(1) h assms(2) assms(3) by (rule select_spec)
  have sets: "sel_sets e cfg input sel"
    unfolding sel_def select_unfold using assms(1) h by (rule select_sets)
  have ok: "sel_thrown sel = None" using assms(4) by (simp add: sel_def)
  have s1: "map_of ts t = map_option fst (find (P t) input)" for t
    using spec ok by (simp add: sel_spec_def ts_def P_def)
  have s2: "map fst (matches sel) =
      map fst (filter (\<lambda>y. passes e cfg y \<and>
          (\<forall>t. template_of e cfg (snd y) = Inr t \<longrightarrow> map_of ts t \<noteq> Some (fst y))) input)"
    using spec ok by (simp add: sel_spec_def ts_def)
  have dist: "distinct (map fst ts)"
    unfolding ts_def sel_def select_unfold by (rule select_files_distinct) simp
  have seed_iff: "(\<forall>t. template_of e cfg (snd y) = Inr t \<longrightarrow> map_of ts t \<noteq> Some (fst y))
      \<longleftrightarrow> fst y \<notin> snd ` set ts" if y: "y \<in> set input" for y
  proof
    assume l: "\<forall>t. template_of e cfg (snd y) = Inr t \<longrightarrow> map_of ts t \<noteq> Some (fst y)"
    show "fst y \<notin> snd ` set ts"
    proof
      assume "fst y \<in> snd ` set ts"
      then obtain t where "(t, fst y) \<in> set ts" by force
      with dist have m: "map_of ts t = Some (fst y)" by simp
      with s1 [of t] obtain z where z: "find (P t) input = Some z" and fz: "fst z = fst y"
        by (cases "find (P t) input") simp_all
      from z have zin: "z \<in> set input" by (rule find_in_set)
      from z have "P t z" by (auto simp add: find_Some_iff)
      moreover have "z = y" using assms(1) y zin fz by (rule same_key)
      ultimately have "template_of e cfg (snd y) = Inr t" by (simp add: P_def)
      with l m show False by simp
    qed
  next
    assume r: "fst y \<notin> snd ` set ts"
    show "\<forall>t. template_of e cfg (snd y) = Inr t \<longrightarrow> map_of ts t \<noteq> Some (fst y)"
    proof (intro allI impI notI)
      fix t assume "map_of ts t = Some (fst y)"
      then have "(t, fst y) \<in> set ts" by (rule map_of_SomeD)
      then have "fst y \<in> snd ` set ts" by force
      with r show False by simp
    qed
  qed
  have followers: "map fst (matches sel) =
      filter (\<lambda>f. f \<notin> set (map snd ts)) (map fst (filter (passes e cfg) input))"
  proof -
    have "filter (\<lambda>y. passes e cfg y \<and>
          (\<forall>t. template_of e cfg (snd y) = Inr t \<longrightarrow> map_of ts t \<noteq> Some (fst y))) input
        = filter (\<lambda>y. passes e cfg y \<and> fst y \<notin> snd ` set ts) input"
      using seed_iff by (intro filter_cong) auto
    then show ?thesis
      unfolding s2 by (simp add: filter_map comp_def conj_commute)
  qed
  have seeds_sub: "set (map snd ts) \<subseteq> set (map fst (filter (passes e cfg) input))"
    using sets unfolding sel_sets_def ts_def by auto
  have disj: "set (map snd ts) \<inter> set (map fst (matches sel)) = {}"
    unfolding followers by auto
  have union: "set (map snd ts) \<union> set (map fst (matches sel)) = set (map fst (filter (passes e cfg) input))"
    unfolding followers using seeds_sub by auto
  show ?thesis
    using s1 dist followers disj union
    unfolding sel_def [symmetric] ts_def [symmetric] P_def by blast
qed

text \<open>Selection on the example.\<close>

lemma demo_select:
  "select demo_env (demo_cfg r) demo_input =
     \<lparr>sel_heap = (heap_of demo_input)
          (''a.md'' := [(''layout'', JStr ''post''), (''contents'', JStr ''A'')],
           ''b.md'' := [(''layout'', JStr ''post''), (''contents'', JStr ''B'')]),
       templates = [(''layouts/post.'', ''a.md'')],
       matches = [(''b.md'', ''b.md'')],
       sel_thrown = None\<rparr>"
  by (simp add: select_def demo_input_def select_file_def demo_env_def demo_cfg_def heap_of_def
      stringify_def getLayoutPath_def or_js_def pop_def test_dot_def Let_def has_truthy_def
      assign_def object_prototype_def)

text \<open>
  C2 fails on the code. In the first collection both files pass the check and resolve to
  the same path. The loop registers the first, whose key is the empty string, as the seed;
  at the second it finds \<^verbatim>\<open>templates[template]\<close> falsy, since the empty string is, and
  registers that one in its place: the first file is a seed no longer and is no
  follower. In the second collection the second file is to become a follower, and
  \<^verbatim>\<open>matches['__proto__'] = data\<close> adds no key to \<^verbatim>\<open>matches\<close>: the file is neither seed
  nor follower.
\<close>

theorem selected_file_dropped:
  "map fst (filter (passes demo_env (demo_cfg False)) empty_key_input) = '''' # [''b.md'']
   \<and> sel_thrown (select demo_env (demo_cfg False) empty_key_input) = None
   \<and> templates (select demo_env (demo_cfg False) empty_key_input) = [(''layouts/post.'', ''b.md'')]
   \<and> matches (select demo_env (demo_cfg False) empty_key_input) = []
   \<and> map fst (filter (passes demo_env (demo_cfg False)) proto_key_input) = [''a.md'', ''__proto__'']
   \<and> sel_thrown (select demo_env (demo_cfg False) proto_key_input) = None
   \<and> templates (select demo_env (demo_cfg False) proto_key_input) = [(''layouts/post.'', ''a.md'')]
   \<and> matches (select demo_env (demo_cfg False) proto_key_input) = []"
  by (simp add: select_def empty_key_input_def proto_key_input_def select_file_def demo_env_def
      demo_cfg_def heap_of_def passes_def stringify_def getLayoutPath_def or_js_def pop_def
      test_dot_def Let_def has_truthy_def assign_def object_prototype_def)

section \<open>Runs\<close>

lemma exec_append: "exec e cfg (a @ b) s = exec e cfg b (exec e cfg a s)"
  by (induction a arbitrary: s) simp_all

lemma exec_invariant:
  assumes "I s" and "\<And>s ev. I s \<Longrightarrow> I (step e cfg ev s)"
  shows "I (exec e cfg sched s)"
  using assms(1)
proof (induction sched arbitrary: s)
  case Nil
  then show ?case by simp
next
  case (Cons ev evs)
  then show ?case using assms(2) by simp
qed

lemma each_callback_frame [simp]:
  "files (each_callback err s) = files s"
  "heap (each_callback err s) = heap s"
  "running (each_callback err s) = running s"
  "thrown (each_callback err s) = thrown s"
  "followers (each_callback err s) = followers s"
  "trace (each_callback err s) = trace s"
  by (simp_all add: each_callback_def renderFiles_def each_matches_def plugin_done_def Let_def
        split: option.splits phase.splits)

lemma each_callback_pending:
  "set (pending (each_callback err s)) \<subseteq> set (pending s) \<union> set (followers s)"
  by (simp add: each_callback_def renderFiles_def each_matches_def plugin_done_def Let_def
        split: option.splits phase.splits)

lemma each_callback_seeds:
  "phase (each_callback err s) = Seeds \<Longrightarrow>
     phase s = Seeds \<and> pending (each_callback err s) = pending s"
  by (simp add: each_callback_def renderFiles_def each_matches_def plugin_done_def Let_def
        split: option.splits phase.splits if_splits)

text \<open>What a step leaves alone.\<close>

lemma step_followers [simp]: "followers (step e cfg ev s) = followers s"
  by (simp add: step_def convert_start_def convert_callback_def Let_def
        split: event.splits option.splits sum.splits member.splits)

lemma step_pending:
  "set (pending (step e cfg ev s)) \<subseteq> set (pending s) \<union> set (followers s)"
proof (cases ev)
  case (Start i)
  have "set (take i (pending s) @ drop (Suc i) (pending s)) \<subseteq> set (pending s)"
    using set_take_subset [of i "pending s"] set_drop_subset [of "Suc i" "pending s"] by auto
  then show ?thesis
    using Start
    by (auto simp add: step_def convert_start_def Let_def split: option.splits sum.splits member.splits)
next
  case (Answer i)
  show ?thesis
    using Answer each_callback_pending
    by (auto simp add: step_def convert_callback_def Let_def split: option.splits sum.splits
          dest!: subsetD [OF each_callback_pending])
qed


lemma set_remove_nth: "set (take i xs @ drop (Suc i) xs) \<subseteq> set xs"
  using set_take_subset [of i xs] set_drop_subset [of "Suc i" xs] by auto

lemma step_seeds:
  "phase (step e cfg ev s) = Seeds \<Longrightarrow>
     phase s = Seeds \<and> set (pending (step e cfg ev s)) \<subseteq> set (pending s)"
proof (cases ev)
  case (Start i)
  assume "phase (step e cfg ev s) = Seeds"
  with Start set_remove_nth [of i "pending s"] show ?thesis
    by (auto simp add: step_def convert_start_def Let_def split: option.splits sum.splits member.splits if_splits)
next
  case (Answer i)
  assume "phase (step e cfg ev s) = Seeds"
  with Answer show ?thesis
    by (auto simp add: step_def convert_callback_def Let_def split: option.splits sum.splits member.splits if_splits
          dest!: each_callback_seeds)
qed

text \<open>
  A set of objects that no render in flight holds and no key still to be handed out leads
  to: a step writes to none of them, hands none of them to a render, and binds none of
  them to a key.
\<close>

lemma step_frame:
  assumes "\<forall>t \<in> set (running s). t_data t \<notin> R"
    and "\<forall>k \<in> set (pending s). \<forall>r. map_of (files s) k = Some r \<longrightarrow> r \<notin> R"
  shows "(\<forall>t \<in> set (running (step e cfg ev s)). t_data t \<notin> R)
       \<and> (\<forall>k r. map_of (files (step e cfg ev s)) k = Some r \<longrightarrow> r \<in> R \<longrightarrow> map_of (files s) k = Some r)
       \<and> (\<forall>r \<in> R. heap (step e cfg ev s) r = heap s r)"
proof (cases ev)
  case (Start i)
  show ?thesis
  proof (cases "i < length (pending s) \<and> thrown s = None")
    case False
    with Start assms show ?thesis by (auto simp add: step_def)
  next
    case True
    then have "pending s ! i \<in> set (pending s)" by simp
    with assms(2) have safe: "\<forall>r. map_of (files s) (pending s ! i) = Some r \<longrightarrow> r \<notin> R"
      by blast
    have del: "map_of (AList.delete k (files s)) k' = Some r \<Longrightarrow> map_of (files s) k' = Some r" for k k' r
      by (simp add: delete_conv' split: if_splits)
    from Start True assms(1) safe show ?thesis
      by (auto simp add: step_def convert_start_def Let_def dest: del
            split: option.splits sum.splits member.splits)
  qed
next
  case (Answer i)
  show ?thesis
  proof (cases "i < length (running s)")
    case False
    with Answer assms show ?thesis by (auto simp add: step_def)
  next
    case True
    then have "running s ! i \<in> set (running s)" by simp
    with assms(1) have safe: "t_data (running s ! i) \<notin> R" by blast
    have rest: "\<forall>t \<in> set (take i (running s) @ drop (Suc i) (running s)). t_data t \<notin> R"
      using assms(1) set_remove_nth [of i "running s"] by blast
    from Answer True safe rest assms(1) show ?thesis
      by (auto simp add: step_def convert_callback_def Let_def update_conv'
            split: option.splits sum.splits member.splits if_splits)
  qed
qed


lemma each_templates_fields [simp]:
  "files (each_templates input sel) = files_of input"
  "heap (each_templates input sel) = sel_heap sel"
  "running (each_templates input sel) = []"
  "followers (each_templates input sel) = map fst (matches sel)"
  "trace (each_templates input sel) = []"
  "thrown (each_templates input sel) = None"
  by (simp_all add: each_templates_def renderFiles_def each_matches_def plugin_done_def Let_def)

lemma each_templates_pending:
  "set (pending (each_templates input sel)) \<subseteq> set (map snd (templates sel)) \<union> set (map fst (matches sel))"
  by (simp add: each_templates_def renderFiles_def each_matches_def plugin_done_def Let_def)

lemma map_of_files_of: "map_of (files_of input) k = Some r \<Longrightarrow> r = k \<and> k \<in> fst ` set input"
  by (induction input) (auto simp add: files_of_def split: if_splits)

lemma with_partials_same:
  assumes "with_partials e cfg = Inr cfg'"
  shows "def cfg' = def cfg" "dir cfg' = dir cfg" "engine cfg' = engine cfg"
    "layoutExtension cfg' = layoutExtension cfg" "pattern cfg' = pattern cfg"
    "rename cfg' = rename cfg" "layoutKey cfg' = layoutKey cfg"
  using assms
  by (auto simp add: with_partials_def split: if_splits option.splits jsval.splits sum.splits)

lemma passes_with_partials: "with_partials e cfg = Inr cfg' \<Longrightarrow> passes e cfg' = passes e cfg"
  by (simp add: passes_def with_partials_same)

text \<open>The run, case by case.\<close>

lemma run_cases:
  obtains
    (partials) err where "with_partials e cfg = Inl err"
      "run e cfg input sched =
         \<lparr>files = files_of input, heap = heap_of input, pending = [], running = [],
          phase = Seeds, called = False, result = None, thrown = Some err,
          followers = [], trace = []\<rparr>"
  | (selection) cfg' err where "with_partials e cfg = Inr cfg'"
      "sel_thrown (select e cfg' input) = Some err"
      "run e cfg input sched =
         \<lparr>files = files_of input, heap = sel_heap (select e cfg' input), pending = [], running = [],
          phase = Seeds, called = False, result = None, thrown = Some err,
          followers = [], trace = []\<rparr>"
  | (renders) cfg' where "with_partials e cfg = Inr cfg'"
      "sel_thrown (select e cfg' input) = None"
      "run e cfg input sched = exec e cfg' sched (each_templates input (select e cfg' input))"
proof (cases "with_partials e cfg")
  case (Inl err)
  then show ?thesis using partials by (simp add: run_def)
next
  case (Inr cfg')
  show ?thesis
  proof (cases "sel_thrown (select e cfg' input)")
    case None
    with Inr show ?thesis using renders by (simp add: run_def Let_def)
  next
    case (Some err)
    with Inr show ?thesis using selection by (simp add: run_def Let_def)
  qed
qed

lemma select_facts:
  assumes "distinct (map fst input)"
  shows "sel_heaps e cfg (heap_of input) input (select e cfg input)"
    and "sel_sets e cfg input (select e cfg input)"
  unfolding select_unfold
  using assms heap_of_input [OF assms] by (rule select_heaps select_sets)+

text \<open>The object of a file the check rejects is never written.\<close>

lemma rejected_object_unchanged:
  assumes "distinct (map fst input)" and "x \<in> set input" and "\<not> passes e cfg x"
  shows "heap (run e cfg input sched) (fst x) = snd x"
proof (cases rule: run_cases [of e cfg input sched])
  case (partials err)
  then show ?thesis using heap_of_input [OF assms(1)] assms(2) by simp
next
  case (selection cfg' err)
  have "\<not> passes e cfg' x" using assms(3) selection(1) by (simp add: passes_with_partials)
  with select_facts(1) [OF assms(1), of e cfg'] assms(2) selection(3) show ?thesis
    by (simp add: sel_heaps_def)
next
  case (renders cfg')
  define sel where "sel = select e cfg' input"
  define I where "I = (\<lambda>s::state. (\<forall>t \<in> set (running s). t_data t \<noteq> fst x)
      \<and> (\<forall>k \<in> set (pending s) \<union> set (followers s). map_of (files s) k \<noteq> Some (fst x))
      \<and> heap s (fst x) = snd x)"
  have np: "\<not> passes e cfg' x" using assms(3) renders(1) by (simp add: passes_with_partials)
  have hs: "sel_heaps e cfg' (heap_of input) input sel" and ss: "sel_sets e cfg' input sel"
    unfolding sel_def using assms(1) by (rule select_facts)+
  have not_selected: "fst x \<notin> fst ` {y \<in> set input. passes e cfg' y}"
  proof
    assume "fst x \<in> fst ` {y \<in> set input. passes e cfg' y}"
    then obtain y where y: "y \<in> set input" "passes e cfg' y" "fst y = fst x" by force
    have "y = x" using assms(1) assms(2) y(1) y(3) by (rule same_key)
    with y(2) np show False by simp
  qed
  have init: "I (each_templates input sel)"
  proof -
    define S where "S = fst ` {y \<in> set input. passes e cfg' y}"
    have "set (map snd (templates sel)) \<subseteq> S" "set (map fst (matches sel)) \<subseteq> S"
      using ss unfolding sel_sets_def S_def by simp_all
    moreover have "fst x \<notin> S" using not_selected by (simp add: S_def)
    ultimately have "k \<noteq> fst x"
      if "k \<in> set (pending (each_templates input sel)) \<union> set (map fst (matches sel))" for k
      using that each_templates_pending [of input sel] by blast
    then have "map_of (files_of input) k \<noteq> Some (fst x)"
      if "k \<in> set (pending (each_templates input sel)) \<union> set (map fst (matches sel))" for k
      using that map_of_files_of [of input k "fst x"] by blast
    moreover have "sel_heap sel (fst x) = snd x"
      using hs np assms(2) by (simp add: sel_heaps_def)
    ultimately show ?thesis by (simp add: I_def)
  qed
  have keep: "I (step e cfg' ev s)" if "I s" for s ev
  proof -
    from that have a: "\<forall>t \<in> set (running s). t_data t \<notin> {fst x}"
      and b: "\<forall>k \<in> set (pending s). \<forall>r. map_of (files s) k = Some r \<longrightarrow> r \<notin> {fst x}"
      by (auto simp add: I_def)
    note f = step_frame [OF a b, of e cfg' ev]
    have "map_of (files (step e cfg' ev s)) k \<noteq> Some (fst x)"
      if "k \<in> set (pending (step e cfg' ev s)) \<union> set (followers s)" for k
    proof -
      from that step_pending [of e cfg' ev s] have "k \<in> set (pending s) \<union> set (followers s)"
        by auto
      with \<open>I s\<close> have "map_of (files s) k \<noteq> Some (fst x)" by (simp add: I_def)
      with f show ?thesis by auto
    qed
    with f \<open>I s\<close> show ?thesis by (simp add: I_def)
  qed
  have "I (exec e cfg' sched (each_templates input sel))"
    using init keep by (rule exec_invariant)
  then show ?thesis using renders(3) by (simp add: I_def sel_def)
qed

section \<open>A seed that fails\<close>

lemma first_failure_append:
  "first_failure (a @ b) = (case first_failure a of Some err \<Rightarrow> Some err | None \<Rightarrow> first_failure b)"
  by (induction a rule: first_failure.induct) simp_all

lemma first_failure_None: "first_failure tr = None \<Longrightarrow> Failed ph k r err \<notin> set tr"
  by (induction tr rule: first_failure.induct) auto

lemma first_failure_Some: "first_failure tr = Some err \<Longrightarrow> \<exists>ph k r. Failed ph k r err \<in> set tr"
  by (induction tr rule: first_failure.induct) auto

lemma inv_trace_init: "inv_trace (each_templates input sel)"
  by (simp add: inv_trace_def each_templates_def renderFiles_def each_matches_def
        plugin_done_def Let_def)

lemma inv_trace_step: "inv_trace s \<Longrightarrow> inv_trace (step e cfg ev s)"
proof (cases ev)
  case (Start i)
  assume "inv_trace s"
  with Start show ?thesis
    by (auto simp add: inv_trace_def step_def convert_start_def Let_def first_failure_append
          split: option.splits sum.splits member.splits)
next
  case (Answer i)
  assume inv: "inv_trace s"
  show ?thesis
  proof (cases "phase s")
    case Seeds
    with inv Answer show ?thesis
      by (auto simp add: inv_trace_def step_def convert_callback_def each_callback_def
            renderFiles_def each_matches_def plugin_done_def Let_def first_failure_append
            dest: first_failure_None
            split: option.splits sum.splits member.splits)
  next
    case Followers
    with inv Answer show ?thesis
      by (auto simp add: inv_trace_def step_def convert_callback_def each_callback_def
            renderFiles_def each_matches_def plugin_done_def Let_def
            split: option.splits sum.splits member.splits)
  qed
qed


text \<open>The definitions a run on a given collection is evaluated with.\<close>

lemmas run_eval = run_def with_partials_def select_def select_file_def heap_of_def files_of_def
  stringify_def getLayoutPath_def or_js_def pop_def test_dot_def Let_def
  has_truthy_def assign_def object_prototype_def consolidate_get_def
  each_templates_def renderFiles_def each_matches_def plugin_done_def
  step_def convert_start_def convert_callback_def each_callback_def
  build_clone_def extend_obj_def demo_render_def demo_env_def demo_cfg_def

lemma each_templates_seeds:
  "phase (each_templates input sel) = Seeds \<Longrightarrow>
     pending (each_templates input sel) = map snd (templates sel)"
  by (simp add: each_templates_def renderFiles_def each_matches_def plugin_done_def Let_def
        split: if_splits)

text \<open>
  C1, as the code has it. In a run in which the render of a seed has failed, the second
  \<^verbatim>\<open>each\<close> is never called: the run stays in its first phase and \<^verbatim>\<open>convert\<close> is called
  on seeds only; \<^verbatim>\<open>done\<close> has been called with the error of the first render that failed,
  a seed's; and every follower is as selection left it, its contents converted to a string
  and nothing else changed.
\<close>

theorem seed_failure_ends_run:
  assumes "distinct (map fst input)"
    and "Failed Seeds k r err \<in> set (trace (run e cfg input sched))"
  shows "phase (run e cfg input sched) = Seeds
       \<and> (\<forall>ent \<in> set (trace (run e cfg input sched)). entry_phase ent = Seeds)
       \<and> result (run e cfg input sched) = Some (first_failure (trace (run e cfg input sched)))
       \<and> (\<exists>k' r' err'. first_failure (trace (run e cfg input sched)) = Some err'
             \<and> Failed Seeds k' r' err' \<in> set (trace (run e cfg input sched)))
       \<and> (\<forall>x \<in> set input. fst x \<in> set (followers (run e cfg input sched)) \<longrightarrow>
             stringify (snd x) = Inr (heap (run e cfg input sched) (fst x)))"
proof (cases rule: run_cases [of e cfg input sched])
  case (partials err)
  with assms(2) show ?thesis by simp
next
  case (selection cfg' err)
  with assms(2) show ?thesis by simp
next
  case (renders cfg')
  define sel where "sel = select e cfg' input"
  define s where "s = run e cfg input sched"
  define F where "F = set (map fst (matches sel))"
  define J where "J = (\<lambda>s::state. followers s = map fst (matches sel) \<and> (phase s = Seeds \<longrightarrow>
        (\<forall>t \<in> set (running s). t_data t \<notin> F)
      \<and> (\<forall>k \<in> set (pending s). \<forall>r. map_of (files s) k = Some r \<longrightarrow> r \<notin> F)
      \<and> (\<forall>r \<in> F. heap s r = sel_heap sel r)))"
  have s_exec: "s = exec e cfg' sched (each_templates input sel)"
    using renders(3) by (simp add: s_def sel_def)
  have hs: "sel_heaps e cfg' (heap_of input) input sel" and ss: "sel_sets e cfg' input sel"
    unfolding sel_def using assms(1) by (rule select_facts)+
  have ok: "sel_thrown sel = None" using renders(2) by (simp add: sel_def)
  \<comment> \<open>the trace and the result\<close>
  have tr: "inv_trace s"
    unfolding s_exec using inv_trace_init inv_trace_step by (rule exec_invariant)
  have failed: "Failed Seeds k r err \<in> set (trace s)" using assms(2) by (simp add: s_def)
  have ph: "phase s = Seeds"
    using tr failed by (cases "phase s") (auto simp add: inv_trace_def)
  with tr have all_seeds: "\<forall>ent \<in> set (trace s). entry_phase ent = Seeds"
    and called_iff: "called s \<longleftrightarrow> first_failure (trace s) \<noteq> None"
    and res: "result s = (if called s then Some (first_failure (trace s)) else None)"
    by (simp_all add: inv_trace_def)
  have ff: "first_failure (trace s) \<noteq> None"
    using failed first_failure_None [of "trace s" Seeds k r err] by blast
  then obtain err' where err': "first_failure (trace s) = Some err'" by auto
  then obtain ph' k' r' where "Failed ph' k' r' err' \<in> set (trace s)"
    using first_failure_Some by blast
  moreover from this all_seeds have "ph' = Seeds" by force
  ultimately have first: "\<exists>k' r' err'. first_failure (trace s) = Some err'
      \<and> Failed Seeds k' r' err' \<in> set (trace s)"
    using err' by blast
  have result: "result s = Some (first_failure (trace s))"
    using res called_iff ff by simp
  \<comment> \<open>the followers\<close>
  have init: "J (each_templates input sel)"
  proof -
    have "r \<notin> F" if "phase (each_templates input sel) = Seeds"
      "k \<in> set (pending (each_templates input sel))" "map_of (files_of input) k = Some r" for k r
    proof -
      from that(1,2) have "k \<in> set (map snd (templates sel))"
        by (simp add: each_templates_seeds)
      moreover from that(3) have "r = k" by (simp add: map_of_files_of)
      ultimately show ?thesis using ss unfolding sel_sets_def F_def by auto
    qed
    then show ?thesis by (auto simp add: J_def)
  qed
  have keep: "J (step e cfg' ev s)" if "J s" for s ev
  proof (cases "phase (step e cfg' ev s) = Seeds")
    case False
    with that show ?thesis by (simp add: J_def)
  next
    case True
    then have p: "phase s = Seeds" and sub: "set (pending (step e cfg' ev s)) \<subseteq> set (pending s)"
      using step_seeds by blast+
    from that p have a: "\<forall>t \<in> set (running s). t_data t \<notin> F"
      and b: "\<forall>k \<in> set (pending s). \<forall>r. map_of (files s) k = Some r \<longrightarrow> r \<notin> F"
      and c: "\<forall>r \<in> F. heap s r = sel_heap sel r"
      by (simp_all add: J_def)
    note f = step_frame [OF a b, of e cfg' ev]
    have "r \<notin> F" if "k \<in> set (pending (step e cfg' ev s))"
      "map_of (files (step e cfg' ev s)) k = Some r" for k r
      using that sub b f by blast
    with f c \<open>J s\<close> show ?thesis by (simp add: J_def)
  qed
  have "J s"
    unfolding s_exec using init keep by (rule exec_invariant)
  with ph have fol: "followers s = map fst (matches sel)"
    and heap_F: "\<forall>r \<in> F. heap s r = sel_heap sel r"
    by (simp_all add: J_def)
  have followers: "stringify (snd x) = Inr (heap s (fst x))"
    if "x \<in> set input" "fst x \<in> set (followers s)" for x
  proof -
    from that(2) fol have inF: "fst x \<in> F" by (simp add: F_def)
    then have "fst x \<in> fst ` {y \<in> set input. passes e cfg' y}"
      using ss unfolding sel_sets_def F_def by auto
    then obtain y where y: "y \<in> set input" "passes e cfg' y" "fst y = fst x" by force
    have "y = x" using assms(1) that(1) y(1) y(3) by (rule same_key)
    with y(2) have "passes e cfg' x" by simp
    with hs ok that(1) have "stringify (snd x) = Inr (sel_heap sel (fst x))"
      by (simp add: sel_heaps_def)
    with heap_F inF show ?thesis by simp
  qed
  show ?thesis
    unfolding s_def [symmetric]
    using ph all_seeds result first followers by blast
qed

text \<open>
  C1, as the claim states it, fails: the seed \<^verbatim>\<open>a.md\<close> fails to render, and the contents
  of the follower \<^verbatim>\<open>b.md\<close>, a Buffer when the run began, is a string after it. The
  selection loop has assigned it.
\<close>

theorem follower_contents_coerced:
  "trace (run demo_env (demo_cfg False) failing_input [Start 0, Answer 0])
     = [Converting Seeds ''a.md'',
        Failed Seeds ''a.md'' ''a.md''
          (Error ''Error rendering template `post` for file `a.md`. Error: boom'')]
   \<and> followers (run demo_env (demo_cfg False) failing_input [Start 0, Answer 0]) = [''b.md'']
   \<and> map_of (heap_of failing_input ''b.md'') ''contents'' = Some (JBuffer ''B'')
   \<and> map_of (heap (run demo_env (demo_cfg False) failing_input [Start 0, Answer 0]) ''b.md'') ''contents''
       = Some (JStr ''B'')"
  by (simp add: run_eval failing_input_def)

theorem seed_failure_ends_run_witness:
  "distinct (map fst failing_input)
   \<and> Failed Seeds ''a.md'' ''a.md'' (Error ''Error rendering template `post` for file `a.md`. Error: boom'')
       \<in> set (trace (run demo_env (demo_cfg False) failing_input [Start 0, Answer 0]))
   \<and> phase (run demo_env (demo_cfg False) failing_input [Start 0, Answer 0]) = Seeds
   \<and> result (run demo_env (demo_cfg False) failing_input [Start 0, Answer 0])
       = Some (first_failure (trace (run demo_env (demo_cfg False) failing_input [Start 0, Answer 0])))"
proof -
  have d: "distinct (map fst failing_input)" by (simp add: failing_input_def)
  have f: "Failed Seeds ''a.md'' ''a.md'' (Error ''Error rendering template `post` for file `a.md`. Error: boom'')
       \<in> set (trace (run demo_env (demo_cfg False) failing_input [Start 0, Answer 0]))"
    by (simp add: run_eval failing_input_def)
  from seed_failure_ends_run [OF d f] d f show ?thesis by simp
qed

section \<open>The renamed key\<close>

lemma join_segments_snoc:
  "join_segments (segs @ [b]) = (if segs = [] then b else join_segments segs @ CHR ''/'' # b)"
  by (cases segs) (simp_all add: join_segments_def)

lemma js_split_append:
  "c \<notin> set a \<Longrightarrow> js_split c (a @ c # rest) = a # js_split c rest"
  by (induction a) (auto split: list.splits simp add: js_split_nonempty)

lemma js_split_join:
  assumes "segs \<noteq> []" and "\<forall>s \<in> set segs. CHR ''/'' \<notin> set s"
  shows "js_split CHR ''/'' (join_segments segs) = segs"
  using assms
proof (induction segs)
  case Nil
  then show ?case by simp
next
  case (Cons s ss)
  show ?case
  proof (cases ss)
    case Nil
    with Cons.prems show ?thesis by (simp add: join_segments_def js_split_no_sep)
  next
    case (Cons t ts)
    have "join_segments (s # ss) = s @ CHR ''/'' # join_segments ss"
      using Cons by (simp add: join_segments_def)
    moreover have "js_split CHR ''/'' (join_segments ss) = ss"
      using Cons.IH Cons.prems Cons by simp
    ultimately show ?thesis
      using Cons.prems by (simp add: js_split_append)
  qed
qed

lemma foldl_normalize_plain:
  assumes "\<forall>s \<in> set segs. s \<noteq> [] \<and> s \<noteq> ''.'' \<and> s \<noteq> ''..''"
  shows "foldl (normalize_step allow) stack segs = rev segs @ stack"
  using assms by (induction segs arbitrary: stack) simp_all

lemma join_segments_nonempty:
  "segs \<noteq> [] \<Longrightarrow> \<forall>s \<in> set segs. s \<noteq> [] \<Longrightarrow> join_segments segs \<noteq> []"
  by (cases segs) (simp_all add: join_segments_def)

lemma hd_join_segments:
  "segs \<noteq> [] \<Longrightarrow> \<forall>s \<in> set segs. s \<noteq> [] \<Longrightarrow> hd (join_segments segs) = hd (hd segs)"
  by (cases segs) (simp_all add: join_segments_def)

lemma last_join_segments:
  "segs \<noteq> [] \<Longrightarrow> \<forall>s \<in> set segs. s \<noteq> [] \<Longrightarrow> last (join_segments segs) = last (last segs)"
proof (induction segs rule: rev_induct)
  case Nil
  then show ?case by simp
next
  case (snoc b segs)
  then show ?case by (simp add: join_segments_snoc)
qed

lemma normalize_plain:
  assumes "segs \<noteq> []"
    and "\<forall>s \<in> set segs. s \<noteq> [] \<and> s \<noteq> ''.'' \<and> s \<noteq> ''..'' \<and> CHR ''/'' \<notin> set s"
  shows "normalize (join_segments segs) = join_segments segs"
proof -
  let ?p = "join_segments segs"
  have ne: "?p \<noteq> []" using assms by (intro join_segments_nonempty) auto
  have "hd segs \<in> set segs" "last segs \<in> set segs" using assms(1) by simp_all
  then have h: "hd (hd segs) \<noteq> CHR ''/''" and l: "last (last segs) \<noteq> CHR ''/''"
    using assms(2) by (metis hd_in_set, metis last_in_set)
  have hd: "hd ?p \<noteq> CHR ''/''" using hd_join_segments [of segs] assms h by auto
  have la: "last ?p \<noteq> CHR ''/''" using last_join_segments [of segs] assms l by auto
  have sp: "js_split CHR ''/'' ?p = segs" using assms by (intro js_split_join) auto
  have fo: "foldl (normalize_step True) [] segs = rev segs"
    using foldl_normalize_plain [of segs True "[]"] assms(2) by simp
  show ?thesis
    using ne hd la by (simp add: normalize_def sp fo Let_def)
qed


lemma takeWhile_sep: "c \<notin> set xs \<Longrightarrow> takeWhile (\<lambda>x. x \<noteq> c) (xs @ c # ys) = xs"
  by (induction xs) auto

lemma dropWhile_sep: "c \<notin> set xs \<Longrightarrow> dropWhile (\<lambda>x. x \<noteq> c) (xs @ c # ys) = c # ys"
  by (induction xs) auto

lemma takeWhile_no_sep: "c \<notin> set xs \<Longrightarrow> takeWhile (\<lambda>x. x \<noteq> c) xs = xs"
  by (induction xs) auto

lemma dropWhile_no_sep: "c \<notin> set xs \<Longrightarrow> dropWhile (\<lambda>x. x \<noteq> c) xs = []"
  by (induction xs) auto

lemma renamed_in_dir:
  assumes segs: "\<forall>s \<in> set segs. s \<noteq> [] \<and> s \<noteq> ''.'' \<and> s \<noteq> ''..'' \<and> CHR ''/'' \<notin> set s"
    and stem: "stem \<noteq> []" "CHR ''/'' \<notin> set stem"
    and ext: "CHR ''.'' \<notin> set ext" "CHR ''/'' \<notin> set ext"
    and dots: "stem @ ''.'' @ ext \<noteq> ''..''"
  shows "renamed (join_segments (segs @ [stem @ ''.'' @ ext])) = join_segments (segs @ [stem @ ''.html''])"
proof -
  define b where "b = stem @ ''.'' @ ext"
  define p where "p = join_segments (segs @ [b])"
  define d where "d = (if segs = [] then [] else join_segments segs)"
  have b_slash: "CHR ''/'' \<notin> set b" using stem ext by (simp add: b_def)
  have b_ne: "b \<noteq> []" by (simp add: b_def)
  have p: "p = (if segs = [] then b else join_segments segs @ CHR ''/'' # b)"
    unfolding p_def by (rule join_segments_snoc)
  have "last p = last b" unfolding p using b_ne by simp
  moreover have "last b \<in> set b" using b_ne by (rule last_in_set)
  ultimately have last_p: "last p \<noteq> CHR ''/''"
    using b_slash by metis
  have p_ne: "p \<noteq> []" using b_ne by (simp add: p)
  have strip: "strip_slashes p = p"
  proof -
    obtain q c where q: "p = q @ [c]" using p_ne by (cases p rule: rev_cases) auto
    with last_p have "c \<noteq> CHR ''/''" by simp
    with q show ?thesis by (simp add: strip_slashes_def)
  qed
  have rev_p: "rev p = rev b @ (if segs = [] then [] else CHR ''/'' # rev (join_segments segs))"
    by (simp add: p)
  have no: "CHR ''/'' \<notin> set (rev b)" using b_slash by simp
  have tw: "takeWhile (\<lambda>c. c \<noteq> CHR ''/'') (rev p) = rev b"
    unfolding rev_p using no by (simp add: takeWhile_sep takeWhile_no_sep del: set_rev)
  have dw: "dropWhile (\<lambda>c. c \<noteq> CHR ''/'') (rev p) =
      (if segs = [] then [] else CHR ''/'' # rev (join_segments segs))"
    unfolding rev_p using no by (simp add: dropWhile_sep dropWhile_no_sep del: set_rev)
  have base: "parse_base p = b"
    unfolding parse_base_def strip tw by simp
  have js_ne: "join_segments segs \<noteq> []" if "segs \<noteq> []"
    using that segs by (intro join_segments_nonempty) auto
  have hd_p: "hd p \<noteq> CHR ''/''"
  proof (cases segs)
    case Nil
    then show ?thesis using stem by (cases stem) (auto simp add: p b_def)
  next
    case (Cons s ss)
    then have "hd (join_segments segs) = hd s"
      using hd_join_segments [of segs] segs by auto
    moreover have "hd s \<noteq> CHR ''/''" using segs Cons by (cases s) auto
    ultimately show ?thesis using js_ne Cons by (simp add: p)
  qed
  have dir: "parse_dir p = d"
  proof (cases "segs = []")
    case True
    then show ?thesis
      unfolding parse_dir_def strip dw d_def using hd_p by (simp add: Let_def)
  next
    case False
    then have "length (join_segments segs) \<noteq> 0" using js_ne by simp
    with False show ?thesis
      unfolding parse_dir_def strip dw d_def by (simp add: Let_def)
  qed
  have "rev b = rev ext @ CHR ''.'' # rev stem" by (simp add: b_def)
  moreover have "CHR ''.'' \<notin> set (rev ext)" using ext(1) by simp
  ultimately have dwb: "dropWhile (\<lambda>c. c \<noteq> CHR ''.'') (rev b) = CHR ''.'' # rev stem"
    by (simp add: dropWhile_sep del: set_rev)
  have dot: "CHR ''.'' \<in> set b" by (simp add: b_def)
  have name: "parse_name p = stem"
    unfolding parse_name_def base Let_def dwb using stem dots dot by (simp add: b_def)
  define q where "q = join_segments (segs @ [stem @ ''.html''])"
  have q: "q = (if segs = [] then stem @ ''.html'' else join_segments segs @ CHR ''/'' # stem @ ''.html'')"
    unfolding q_def by (rule join_segments_snoc)
  have "renamed p = normalize q"
    unfolding renamed_def dir name path_join_def q d_def using js_ne by simp
  also have "\<dots> = q"
    unfolding q_def using segs stem by (intro normalize_plain) auto
  finally show ?thesis unfolding p_def q_def b_def .
qed

lemma renamed_examples:
  "renamed ''post.md'' = ''post.html''" "renamed ''posts/a.md'' = ''posts/a.html''"
  "renamed ''/..'' = ''/..html''"
  by (simp_all add: renamed_def parse_dir_def parse_name_def parse_base_def
        strip_slashes_def path_join_def normalize_def join_segments_def at_root_def)

section \<open>Renaming\<close>

lemma remove_nth_distinct:
  assumes "distinct (map f xs)" and "i < length xs"
  shows "distinct (map f (take i xs @ drop (Suc i) xs))"
    and "f (xs ! i) \<notin> f ` set (take i xs @ drop (Suc i) xs)"
proof -
  have "xs = take i xs @ xs ! i # drop (Suc i) xs"
    using assms(2) by (rule id_take_nth_drop)
  then have "distinct (map f (take i xs @ xs ! i # drop (Suc i) xs))"
    using assms(1) by simp
  then show "distinct (map f (take i xs @ drop (Suc i) xs))"
    and "f (xs ! i) \<notin> f ` set (take i xs @ drop (Suc i) xs)"
    by auto
qed

lemma inv_renameI:
  assumes "\<And>k k' r. map_of (files s) k = Some r \<Longrightarrow> map_of (files s) k' = Some r \<Longrightarrow> k = k'"
    and "\<And>t k. t \<in> set (running s) \<Longrightarrow> map_of (files s) k \<noteq> Some (t_data t)"
    and "distinct (map t_data (running s))"
    and "\<And>ph k r err k'. Failed ph k r err \<in> set (trace s) \<Longrightarrow> map_of (files s) k' \<noteq> Some r"
    and "\<And>ph k r err. Failed ph k r err \<in> set (trace s) \<Longrightarrow> r \<notin> t_data ` set (running s)"
    and "\<And>t. t \<in> set (running s) \<Longrightarrow> t_file t = renamed (t_key t)"
  shows "inv_rename s"
  unfolding inv_rename_def
  apply (intro conjI allI impI ballI)
  using assms(1) apply blast
  using assms(2) apply blast
  using assms(3) apply blast
  using assms(4) apply blast
  using assms(5) apply blast
  using assms(6) apply blast
  done

lemma inv_renameD:
  assumes "inv_rename s"
  shows "\<And>k k' r. map_of (files s) k = Some r \<Longrightarrow> map_of (files s) k' = Some r \<Longrightarrow> k = k'"
    and "\<And>t k. t \<in> set (running s) \<Longrightarrow> map_of (files s) k \<noteq> Some (t_data t)"
    and "distinct (map t_data (running s))"
    and "\<And>ph k r err k'. Failed ph k r err \<in> set (trace s) \<Longrightarrow> map_of (files s) k' \<noteq> Some r"
    and "\<And>ph k r err. Failed ph k r err \<in> set (trace s) \<Longrightarrow> r \<notin> t_data ` set (running s)"
    and "\<And>t. t \<in> set (running s) \<Longrightarrow> t_file t = renamed (t_key t)"
  using assms unfolding inv_rename_def by blast+

lemma inv_rename_init: "inv_rename (each_templates input sel)"
  by (rule inv_renameI) (auto dest: map_of_files_of)

text \<open>The fields after the first part of \<^verbatim>\<open>convert\<close>.\<close>

lemma convert_start_cases:
  obtains
    (thrown) err where
      "files (convert_start e cfg k s) = files s \<or>
       files (convert_start e cfg k s) = AList.delete k (files s)"
      "running (convert_start e cfg k s) = running s"
      "heap (convert_start e cfg k s) = heap s"
      "trace (convert_start e cfg k s) = trace s @ [Converting (phase s) k]"
      "thrown (convert_start e cfg k s) = Some err"
  | (started) data t lp where
      "map_of (files s) k = Some data"
      "t_data t = data" "t_key t = k"
      "t_file t = (if truthy (rename cfg) then renamed k else k)"
      "files (convert_start e cfg k s) =
         (if truthy (rename cfg) then AList.delete k (files s) else files s)"
      "running (convert_start e cfg k s) = running s @ [t]"
      "heap (convert_start e cfg k s) = heap s"
      "trace (convert_start e cfg k s) = trace s @ [Converting (phase s) k]"
      "thrown (convert_start e cfg k s) = thrown s"
      "getLayoutPath cfg (map_of (heap s data) (js_to_string (layoutKey cfg))) = Inr lp"
      "t_str t = path e (dir cfg) lp"
      "t_clone t = build_clone (params cfg) (metadata e) (heap s data)"
proof (cases "map_of (files s) k")
  case None
  then show ?thesis using thrown by (simp add: convert_start_def Let_def)
next
  case (Some data)
  show ?thesis
  proof (cases "getLayoutPath cfg (map_of (heap s data) (js_to_string (layoutKey cfg)))")
    case (Inl err)
    with Some show ?thesis using thrown by (simp add: convert_start_def Let_def)
  next
    case (Inr lp)
    show ?thesis
    proof (cases "consolidate_get e (js_to_string (engine cfg))")
      case None
      with Some Inr show ?thesis using thrown by (simp add: convert_start_def Let_def)
    next
      case member: (Some m)
      let ?t = "\<lparr>t_file = (if truthy (rename cfg) then renamed k else k), t_key = k, t_data = data,
                 t_str = path e (dir cfg) lp,
                 t_clone = build_clone (params cfg) (metadata e) (heap s data)\<rparr>"
      show ?thesis
      proof (cases m)
        case Throwing
        with Some Inr member show ?thesis using thrown by (simp add: convert_start_def Let_def)
      next
        case Quiet
        with Some Inr member show ?thesis using started [of data ?t lp]
          by (simp add: convert_start_def Let_def)
      next
        case (Engine render)
        with Some Inr member show ?thesis using started [of data ?t lp]
          by (simp add: convert_start_def Let_def)
      qed
    qed
  qed
qed

lemma inv_rename_start:
  assumes inv: "inv_rename s" and rn: "truthy (rename cfg)"
    and same: "files s0 = files s" "running s0 = running s" "trace s0 = trace s"
  shows "inv_rename (convert_start e cfg k s0)"
proof -
  note d = inv_renameD [OF inv]
  let ?s' = "convert_start e cfg k s0"
  have del: "map_of (AList.delete k (files s)) k' = Some r \<Longrightarrow> map_of (files s) k' = Some r" for k' r
    by (simp add: delete_conv' split: if_splits)
  show ?thesis
  proof (cases rule: convert_start_cases [of e cfg k s0])
    case (thrown err)
    from thrown(1) have sub: "map_of (files ?s') k' = Some r \<Longrightarrow> map_of (files s) k' = Some r" for k' r
      using del same(1) by auto
    show ?thesis
    proof (rule inv_renameI)
      show "k1 = k2" if "map_of (files ?s') k1 = Some r" "map_of (files ?s') k2 = Some r" for k1 k2 r
        using that sub d(1) by blast
      show "map_of (files ?s') k1 \<noteq> Some (t_data t)" if "t \<in> set (running ?s')" for t k1
        using that sub d(2) thrown(2) same(2) by force
      show "distinct (map t_data (running ?s'))"
        using d(3) thrown(2) same(2) by simp
      show "map_of (files ?s') k' \<noteq> Some r" if "Failed ph k1 r err \<in> set (trace ?s')" for ph k1 r err k'
        using that sub d(4) thrown(4) same(3) by force
      show "r \<notin> t_data ` set (running ?s')" if "Failed ph k1 r err \<in> set (trace ?s')" for ph k1 r err
        using that d(5) thrown(2,4) same(2,3) by force
      show "t_file t = renamed (t_key t)" if "t \<in> set (running ?s')" for t
        using that d(6) thrown(2) same(2) by simp
    qed
  next
    case (started data t lp)
    have bound: "map_of (files s) k = Some data" using started(1) same(1) by simp
    have files': "files ?s' = AList.delete k (files s)" using started(5) rn same(1) by simp
    have running': "running ?s' = running s @ [t]" using started(6) same(2) by simp
    have trace': "set (trace ?s') = insert (Converting (phase s0) k) (set (trace s))"
      using started(8) same(3) by simp
    have sub: "map_of (files ?s') k' = Some r \<Longrightarrow> map_of (files s) k' = Some r" for k' r
      using del files' by simp
    have fresh: "data \<notin> t_data ` set (running s)"
      using d(2) bound by force
    have gone: "map_of (files ?s') k' \<noteq> Some data" for k'
      using d(1) [OF _ bound] files' by (auto simp add: delete_conv')
    show ?thesis
    proof (rule inv_renameI)
      show "k1 = k2" if "map_of (files ?s') k1 = Some r" "map_of (files ?s') k2 = Some r" for k1 k2 r
        using that sub d(1) by blast
      show "map_of (files ?s') k1 \<noteq> Some (t_data t')" if "t' \<in> set (running ?s')" for t' k1
        using that sub d(2) running' gone started(2) by force
      show "distinct (map t_data (running ?s'))"
        using d(3) running' fresh started(2) by simp
      show "map_of (files ?s') k' \<noteq> Some r" if "Failed ph k1 r err \<in> set (trace ?s')" for ph k1 r err k'
        using that sub d(4) trace' by force
      show "r \<notin> t_data ` set (running ?s')" if "Failed ph k1 r err \<in> set (trace ?s')" for ph k1 r err
      proof -
        from that trace' have f: "Failed ph k1 r err \<in> set (trace s)" by simp
        then have "r \<noteq> data" using d(4) [OF f, of k] bound by auto
        with d(5) [OF f] running' started(2) show ?thesis by auto
      qed
      show "t_file t' = renamed (t_key t')" if "t' \<in> set (running ?s')" for t'
        using that d(6) running' started(3,4) rn by auto
    qed
  qed
qed


text \<open>The fields after the callback of \<^verbatim>\<open>convert\<close>.\<close>

lemma convert_callback_cases:
  obtains
    (failed) err err' where
      "render (t_str t) (t_clone t) = Inl err"
      "files (convert_callback e cfg render t s) = files s"
      "running (convert_callback e cfg render t s) = running s"
      "heap (convert_callback e cfg render t s) = heap s"
      "trace (convert_callback e cfg render t s) = trace s @ [Failed (phase s) (t_key t) (t_data t) err']"
  | (converted) out where
      "render (t_str t) (t_clone t) = Inr out"
      "files (convert_callback e cfg render t s) = AList.update (t_file t) (t_data t) (files s)"
      "running (convert_callback e cfg render t s) = running s"
      "heap (convert_callback e cfg render t s) =
         (heap s)(t_data t := AList.update ''contents'' (JBuffer out) (heap s (t_data t)))"
      "trace (convert_callback e cfg render t s) = trace s @ [Converted (phase s) (t_key t) (t_data t)]"
proof (cases "render (t_str t) (t_clone t)")
  case (Inl err)
  then show ?thesis using failed by (simp add: convert_callback_def Let_def)
next
  case (Inr out)
  then show ?thesis using converted by (simp add: convert_callback_def)
qed

lemma inv_rename_answer:
  assumes inv: "inv_rename s" and i: "i < length (running s)"
    and same: "files s1 = files s" "running s1 = take i (running s) @ drop (Suc i) (running s)"
      "trace s1 = trace s"
  shows "inv_rename (convert_callback e cfg render (running s ! i) s1)"
proof -
  note d = inv_renameD [OF inv]
  let ?t = "running s ! i"
  let ?s' = "convert_callback e cfg render ?t s1"
  have t_in: "?t \<in> set (running s)" using i by simp
  have rest: "set (running s1) \<subseteq> set (running s)"
    using same(2) set_remove_nth [of i "running s"] by simp
  have dist1: "distinct (map t_data (running s1))"
    and t_out: "t_data ?t \<notin> t_data ` set (running s1)"
    using remove_nth_distinct [OF d(3) i] same(2) by simp_all
  have unbound: "map_of (files s) k \<noteq> Some (t_data ?t)" for k
    using d(2) [OF t_in] .
  have others: "t_data t \<noteq> t_data ?t" if "t \<in> set (running s1)" for t
    using that t_out by (metis imageI)
  show ?thesis
  proof (cases rule: convert_callback_cases [of render ?t e cfg s1])
    case (failed err err')
    have files': "files ?s' = files s" using failed(2) same(1) by simp
    have running': "running ?s' = running s1" using failed(3) .
    have trace': "set (trace ?s') = insert (Failed (phase s1) (t_key ?t) (t_data ?t) err') (set (trace s))"
      using failed(5) same(3) by simp
    show ?thesis
    proof (rule inv_renameI)
      show "k1 = k2" if "map_of (files ?s') k1 = Some r" "map_of (files ?s') k2 = Some r" for k1 k2 r
        using that d(1) files' by simp
      show "map_of (files ?s') k1 \<noteq> Some (t_data t)" if "t \<in> set (running ?s')" for t k1
        using that d(2) rest files' running' by auto
      show "distinct (map t_data (running ?s'))"
        using dist1 running' by simp
      show "map_of (files ?s') k' \<noteq> Some r" if "Failed ph k1 r err \<in> set (trace ?s')" for ph k1 r err k'
        using that d(4) unbound files' trace' by auto
      show "r \<notin> t_data ` set (running ?s')" if "Failed ph k1 r err \<in> set (trace ?s')" for ph k1 r err
      proof (cases "Failed ph k1 r err \<in> set (trace s)")
        case True
        from d(5) [OF True] rest running' show ?thesis by auto
      next
        case False
        with that trace' have "r = t_data ?t" by auto
        with t_out running' show ?thesis by simp
      qed
      show "t_file t = renamed (t_key t)" if "t \<in> set (running ?s')" for t
        using that d(6) rest running' by auto
    qed
  next
    case (converted out)
    have files': "map_of (files ?s') = (map_of (files s))(t_file ?t \<mapsto> t_data ?t)"
      using converted(2) same(1) by (simp add: update_conv')
    have running': "running ?s' = running s1" using converted(3) .
    have trace': "set (trace ?s') = insert (Converted (phase s1) (t_key ?t) (t_data ?t)) (set (trace s))"
      using converted(5) same(3) by simp
    show ?thesis
    proof (rule inv_renameI)
      show "k1 = k2" if "map_of (files ?s') k1 = Some r" "map_of (files ?s') k2 = Some r" for k1 k2 r
        using that d(1) unbound unfolding files' by (auto split: if_splits)
      show "map_of (files ?s') k1 \<noteq> Some (t_data t)" if "t \<in> set (running ?s')" for t k1
      proof -
        from that running' have t1: "t \<in> set (running s1)" by simp
        then have "t_data t \<noteq> t_data ?t" by (rule others)
        moreover from t1 rest have "map_of (files s) k1 \<noteq> Some (t_data t)" using d(2) by blast
        ultimately show ?thesis unfolding files' by auto
      qed
      show "distinct (map t_data (running ?s'))"
        using dist1 running' by simp
      show "map_of (files ?s') k' \<noteq> Some r" if "Failed ph k1 r err \<in> set (trace ?s')" for ph k1 r err k'
      proof -
        from that trace' have f: "Failed ph k1 r err \<in> set (trace s)" by simp
        from d(5) [OF f] t_in have "r \<noteq> t_data ?t" by auto
        with d(4) [OF f, of k'] show ?thesis unfolding files' by auto
      qed
      show "r \<notin> t_data ` set (running ?s')" if "Failed ph k1 r err \<in> set (trace ?s')" for ph k1 r err
      proof -
        from that trace' have f: "Failed ph k1 r err \<in> set (trace s)" by simp
        with d(5) [OF f] rest running' show ?thesis by auto
      qed
      show "t_file t = renamed (t_key t)" if "t \<in> set (running ?s')" for t
        using that d(6) rest running' by auto
    qed
  qed
qed

lemma inv_rename_each_callback: "inv_rename s \<Longrightarrow> inv_rename (each_callback err s)"
  by (simp add: inv_rename_def)

lemma inv_rename_step:
  assumes "inv_rename s" and "truthy (rename cfg)"
  shows "inv_rename (step e cfg ev s)"
proof (cases ev)
  case (Start i)
  show ?thesis
  proof (cases "i < length (pending s) \<and> thrown s = None")
    case True
    with Start show ?thesis
      using inv_rename_start [OF assms, of "s\<lparr>pending := take i (pending s) @ drop (Suc i) (pending s)\<rparr>" e "pending s ! i"]
      by (simp add: step_def)
  next
    case False
    with Start assms(1) show ?thesis by (auto simp add: step_def)
  qed
next
  case (Answer i)
  show ?thesis
  proof (cases "i < length (running s)")
    case True
    show ?thesis
    proof (cases "consolidate e (js_to_string (engine cfg))")
      case None
      with Answer True assms(1) show ?thesis by (simp add: step_def)
    next
      case (Some render)
      with Answer True show ?thesis
        using inv_rename_answer [OF assms(1) True,
            of "s\<lparr>running := take i (running s) @ drop (Suc i) (running s)\<rparr>" e cfg render]
        by (simp add: step_def)
    qed
  next
    case False
    with Answer assms(1) show ?thesis by (simp add: step_def)
  qed
qed


lemma inv_rename_idle:
  assumes "files s = files_of input" and "running s = []" and "trace s = []"
  shows "inv_rename s"
proof (rule inv_renameI)
  show "k = k'" if "map_of (files s) k = Some r" "map_of (files s) k' = Some r" for k k' r
    using that map_of_files_of [of input k r] map_of_files_of [of input k' r] assms(1) by simp
qed (simp_all add: assms)

lemma inv_rename_run:
  assumes "truthy (rename cfg)"
  shows "inv_rename (run e cfg input sched)"
proof (cases rule: run_cases [of e cfg input sched])
  case (partials err)
  then show ?thesis by (intro inv_rename_idle [of _ input]) simp_all
next
  case (selection cfg' err)
  then show ?thesis by (intro inv_rename_idle [of _ input]) simp_all
next
  case (renders cfg')
  have rn: "truthy (rename cfg')" using assms renders(1) by (simp add: with_partials_same)
  show ?thesis
    unfolding renders(3)
    using inv_rename_init inv_rename_step [OF _ rn] by (rule exec_invariant)
qed

lemma run_snoc:
  assumes "running (run e cfg input sched) \<noteq> [] \<or> thrown (run e cfg input sched) = None"
  obtains cfg' where "with_partials e cfg = Inr cfg'"
    and "run e cfg input (sched @ [ev]) = step e cfg' ev (run e cfg input sched)"
proof (cases rule: run_cases [of e cfg input sched])
  case (partials err)
  with assms show ?thesis by simp
next
  case (selection cfg' err)
  with assms show ?thesis by simp
next
  case (renders cfg')
  then have "run e cfg input (sched @ [ev]) = step e cfg' ev (run e cfg input sched)"
    by (simp add: run_def Let_def exec_append)
  with renders(1) that show ?thesis by blast
qed

lemma convert_start_deletes:
  assumes "truthy (rename cfg)"
  shows "map_of (files (convert_start e cfg k s)) k = None \<or> thrown (convert_start e cfg k s) \<noteq> None"
  using assms
  by (simp add: convert_start_def Let_def delete_conv' split: option.splits sum.splits member.splits)

text \<open>
  C7. With renaming on: when \<^verbatim>\<open>convert\<close> is called on a key and throws nothing, the
  key is out of the collection before the renderer answers; while its render is in flight
  a file is in the collection under no key; and once its render has failed it stays under
  no key, the old one and the new one included, for the rest of the run.
\<close>

theorem failed_render_loses_file:
  assumes "truthy (rename cfg)"
  shows "(\<forall>i. i < length (pending (run e cfg input sched)) \<longrightarrow> thrown (run e cfg input sched) = None \<longrightarrow>
            map_of (files (run e cfg input (sched @ [Start i]))) (pending (run e cfg input sched) ! i) = None
            \<or> thrown (run e cfg input (sched @ [Start i])) \<noteq> None)
       \<and> (\<forall>t \<in> set (running (run e cfg input sched)).
            \<forall>k. map_of (files (run e cfg input sched)) k \<noteq> Some (t_data t))
       \<and> (\<forall>ph k r err. Failed ph k r err \<in> set (trace (run e cfg input sched)) \<longrightarrow>
            (\<forall>k'. map_of (files (run e cfg input sched)) k' \<noteq> Some r))"
proof (intro conjI allI impI)
  fix i
  assume i: "i < length (pending (run e cfg input sched))"
    and ok: "thrown (run e cfg input sched) = None"
  from ok have "running (run e cfg input sched) \<noteq> [] \<or> thrown (run e cfg input sched) = None"
    by simp
  then obtain cfg' where wp: "with_partials e cfg = Inr cfg'"
    and st: "run e cfg input (sched @ [Start i]) = step e cfg' (Start i) (run e cfg input sched)"
    by (rule run_snoc)
  have rn: "truthy (rename cfg')" using assms wp by (simp add: with_partials_same)
  show "map_of (files (run e cfg input (sched @ [Start i]))) (pending (run e cfg input sched) ! i) = None
      \<or> thrown (run e cfg input (sched @ [Start i])) \<noteq> None"
    unfolding st using i ok convert_start_deletes [OF rn] by (simp add: step_def)
next
  show "\<forall>t \<in> set (running (run e cfg input sched)).
      \<forall>k. map_of (files (run e cfg input sched)) k \<noteq> Some (t_data t)"
    using inv_renameD(2) [OF inv_rename_run [OF assms, of e input sched]] by blast
next
  fix ph k r err k'
  assume "Failed ph k r err \<in> set (trace (run e cfg input sched))"
  then show "map_of (files (run e cfg input sched)) k' \<noteq> Some r"
    using inv_renameD(4) [OF inv_rename_run [OF assms, of e input sched]] by blast
qed

theorem failed_render_loses_file_witness:
  "truthy (rename (demo_cfg True))
   \<and> Failed Seeds ''a.md'' ''a.md'' (Error ''Error rendering template `post` for file `a.html`. Error: boom'')
       \<in> set (trace (run demo_env (demo_cfg True) failing_input [Start 0, Answer 0]))
   \<and> map_of (files (run demo_env (demo_cfg True) failing_input [Start 0, Answer 0])) ''a.md'' \<noteq> Some ''a.md''
   \<and> map_of (files (run demo_env (demo_cfg True) failing_input [Start 0, Answer 0])) ''a.html'' \<noteq> Some ''a.md''"
proof -
  have r: "truthy (rename (demo_cfg True))" by (simp add: demo_cfg_def)
  have f: "Failed Seeds ''a.md'' ''a.md'' (Error ''Error rendering template `post` for file `a.html`. Error: boom'')
       \<in> set (trace (run demo_env (demo_cfg True) failing_input [Start 0, Answer 0]))"
    by (simp add: run_eval failing_input_def renamed_def parse_dir_def parse_name_def parse_base_def
          strip_slashes_def path_join_def normalize_def join_segments_def at_root_def)
  from failed_render_loses_file [OF r, of demo_env failing_input "[Start 0, Answer 0]"] r f
  show ?thesis by blast
qed





lemma files_kept_step:
  assumes "\<not> truthy (rename cfg)"
    and "map_of (files s) = m"
    and "\<forall>t \<in> set (running s). map_of (files s) (t_file t) = Some (t_data t)"
  shows "map_of (files (step e cfg ev s)) = m
       \<and> (\<forall>t \<in> set (running (step e cfg ev s)).
            map_of (files (step e cfg ev s)) (t_file t) = Some (t_data t))"
proof (cases ev)
  case (Start i)
  with assms show ?thesis
    by (auto simp add: step_def convert_start_def Let_def split: option.splits sum.splits member.splits)
next
  case (Answer i)
  show ?thesis
  proof (cases "i < length (running s)")
    case False
    with Answer assms show ?thesis by (simp add: step_def)
  next
    case True
    then have "running s ! i \<in> set (running s)" by simp
    with assms(3) have b: "map_of (files s) (t_file (running s ! i)) = Some (t_data (running s ! i))"
      by blast
    then have same: "(map_of (files s))(t_file (running s ! i) \<mapsto> t_data (running s ! i)) = map_of (files s)"
      by (rule map_upd_triv)
    have rest: "\<forall>t \<in> set (take i (running s) @ drop (Suc i) (running s)).
        map_of (files s) (t_file t) = Some (t_data t)"
      using assms(3) set_remove_nth [of i "running s"] by blast
    from Answer True assms(2) assms(3) same rest show ?thesis
      by (auto simp add: step_def convert_callback_def Let_def update_conv'
            split: option.splits sum.splits member.splits)
  qed
qed

lemma files_kept:
  assumes "\<not> truthy (rename cfg)"
  shows "map_of (files (run e cfg input sched)) = map_of (files_of input)"
proof (cases rule: run_cases [of e cfg input sched])
  case (partials err)
  then show ?thesis by simp
next
  case (selection cfg' err)
  then show ?thesis by simp
next
  case (renders cfg')
  have rn: "\<not> truthy (rename cfg')" using assms renders(1) by (simp add: with_partials_same)
  define K where "K = (\<lambda>s::state. map_of (files s) = map_of (files_of input)
      \<and> (\<forall>t \<in> set (running s). map_of (files s) (t_file t) = Some (t_data t)))"
  have "K (each_templates input (select e cfg' input))" by (simp add: K_def)
  moreover have "K (step e cfg' ev s)" if "K s" for s ev
  proof -
    have a: "map_of (files s) = map_of (files_of input)"
      using that unfolding K_def by (rule conjunct1)
    have b: "\<forall>t \<in> set (running s). map_of (files s) (t_file t) = Some (t_data t)"
      using that unfolding K_def by (rule conjunct2)
    show ?thesis
      unfolding K_def using files_kept_step [OF rn a b, of e ev] .
  qed
  ultimately have "K (exec e cfg' sched (each_templates input (select e cfg' input)))"
    by (rule exec_invariant)
  then show ?thesis using renders(3) by (simp add: K_def)
qed

lemma map_of_files_of_key: "k \<in> fst ` set input \<Longrightarrow> map_of (files_of input) k = Some k"
  by (induction input) (auto simp add: files_of_def)


section \<open>Files the check rejects\<close>

text \<open>
  C9. A file the check rejects is, at every point of every run, the object it was when the
  run began: its contents and every other field are unchanged, whatever is rendered, in
  whatever order, and also when an exception ends the run. Without renaming it also stays
  in the collection under its key.
\<close>

theorem rejected_file_unchanged:
  assumes "distinct (map fst input)" and "x \<in> set input" and "\<not> passes e cfg x"
  shows "heap (run e cfg input sched) (fst x) = snd x
       \<and> (\<not> truthy (rename cfg) \<longrightarrow> map_of (files (run e cfg input sched)) (fst x) = Some (fst x))"
proof
  show "heap (run e cfg input sched) (fst x) = snd x"
    using assms by (rule rejected_object_unchanged)
  show "\<not> truthy (rename cfg) \<longrightarrow> map_of (files (run e cfg input sched)) (fst x) = Some (fst x)"
    using assms(2) by (simp add: files_kept map_of_files_of_key)
qed

theorem rejected_file_unchanged_witness:
  "distinct (map fst demo_input)
   \<and> (''c.bin'', [(''contents'', JBuffer ''C'')]) \<in> set demo_input
   \<and> \<not> passes demo_env (demo_cfg False) (''c.bin'', [(''contents'', JBuffer ''C'')])
   \<and> \<not> truthy (rename (demo_cfg False))
   \<and> heap (run demo_env (demo_cfg False) demo_input [Start 0, Answer 0, Start 0, Answer 0]) ''c.bin''
       = [(''contents'', JBuffer ''C'')]
   \<and> map_of (files (run demo_env (demo_cfg False) demo_input [Start 0, Answer 0, Start 0, Answer 0])) ''c.bin''
       = Some ''c.bin''"
proof -
  have d: "distinct (map fst demo_input)"
    and m: "(''c.bin'', [(''contents'', JBuffer ''C'')]) \<in> set demo_input"
    by (simp_all add: demo_input_def)
  have p: "\<not> passes demo_env (demo_cfg False) (''c.bin'', [(''contents'', JBuffer ''C'')])"
    by (simp add: passes_def demo_env_def demo_cfg_def or_js_def)
  have r: "\<not> truthy (rename (demo_cfg False))" by (simp add: demo_cfg_def)
  from rejected_file_unchanged [OF d m p, of "[Start 0, Answer 0, Start 0, Answer 0]"] d m p r
  show ?thesis by simp
qed

end
